theory Spec2Isabelle
  imports Main
begin

section \<open>Python values: errors, indexing, slices, ranges, loops\<close>

text \<open>
  The matchers are Python functions over \<open>str\<close> and \<open>list\<close>. Python integers are
  unbounded, so every index and every table entry is an \<open>int\<close>. Reading or writing a
  list at an index outside \<open>-len .. len - 1\<close> raises \<open>IndexError\<close>; a negative index in
  that interval counts from the end. A call therefore yields a value of
  \<open>py_error + 'a\<close>, with \<open>Inl\<close> for the exception.
\<close>

datatype py_error = IndexError

definition bindE :: "py_error + 'a \<Rightarrow> ('a \<Rightarrow> py_error + 'b) \<Rightarrow> py_error + 'b" where
  "bindE r f = (case r of Inl e \<Rightarrow> Inl e | Inr v \<Rightarrow> f v)"

definition py_get :: "'a list \<Rightarrow> int \<Rightarrow> py_error + 'a" where
  "py_get xs i =
     (let n = int (length xs) in
      if 0 \<le> i \<and> i < n then Inr (xs ! nat i)
      else if - n \<le> i \<and> i < 0 then Inr (xs ! nat (n + i))
      else Inl IndexError)"

definition py_set :: "'a list \<Rightarrow> int \<Rightarrow> 'a \<Rightarrow> py_error + 'a list" where
  "py_set xs i v =
     (let n = int (length xs) in
      if 0 \<le> i \<and> i < n then Inr (xs[nat i := v])
      else if - n \<le> i \<and> i < 0 then Inr (xs[nat (n + i) := v])
      else Inl IndexError)"

text \<open>\<open>xs[a:b]\<close>: both bounds are normalised as Python does, then clipped.\<close>

definition py_clip :: "int \<Rightarrow> int \<Rightarrow> nat" where
  "py_clip n i = nat (if i < 0 then max 0 (i + n) else min i n)"

definition py_slice :: "'a list \<Rightarrow> int \<Rightarrow> int \<Rightarrow> 'a list" where
  "py_slice xs a b =
     (let n = int (length xs) in drop (py_clip n a) (take (py_clip n b) xs))"

text \<open>\<open>range(a, b)\<close> and \<open>[v] * k\<close>.\<close>

definition py_range :: "int \<Rightarrow> int \<Rightarrow> int list" where
  "py_range a b = [a..b - 1]"

definition py_repeat :: "'a \<Rightarrow> int \<Rightarrow> 'a list" where
  "py_repeat v k = replicate (nat k) v"

text \<open>A \<open>for\<close> loop over a list of indices, threading the loop's state; an exception
  in the body leaves the loop.\<close>

fun for_loop :: "int list \<Rightarrow> (int \<Rightarrow> 's \<Rightarrow> py_error + 's) \<Rightarrow> 's \<Rightarrow> py_error + 's" where
  "for_loop [] body s = Inr s"
| "for_loop (x # xs) body s =
     (case body x s of Inl e \<Rightarrow> Inl e | Inr s' \<Rightarrow> for_loop xs body s')"

text \<open>\<open>dp[i][j]\<close> and \<open>dp[i][j] = v\<close> on a list of rows (the rows are distinct objects).\<close>

definition get2 :: "'a list list \<Rightarrow> int \<Rightarrow> int \<Rightarrow> py_error + 'a" where
  "get2 dp i j = bindE (py_get dp i) (\<lambda>row. py_get row j)"

definition set2 :: "'a list list \<Rightarrow> int \<Rightarrow> int \<Rightarrow> 'a \<Rightarrow> py_error + 'a list list" where
  "set2 dp i j v =
     bindE (py_get dp i) (\<lambda>row. bindE (py_set row j v) (\<lambda>row'. py_set dp i row'))"

text \<open>
  A \<open>while\<close> loop. Its test may raise (it indexes lists) and the loop may run forever,
  so a run yields \<open>None\<close> when it does not return, \<open>Some (Inl e)\<close> when it raises and
  \<open>Some (Inr s)\<close> when it leaves the loop in state \<open>s\<close>.
\<close>

type_synonym 'a run = "(py_error + 'a) option"

definition bindR :: "'a run \<Rightarrow> ('a \<Rightarrow> 'b run) \<Rightarrow> 'b run" where
  "bindR r f = (case r of None \<Rightarrow> None | Some (Inl e) \<Rightarrow> Some (Inl e) | Some (Inr v) \<Rightarrow> f v)"

partial_function (option) while_loop ::
  "('s \<Rightarrow> py_error + bool) \<Rightarrow> ('s \<Rightarrow> (py_error + 's) option) \<Rightarrow> 's \<Rightarrow> (py_error + 's) option" where
  "while_loop cond body s =
     (case cond s of
        Inl e \<Rightarrow> Some (Inl e)
      | Inr b \<Rightarrow>
          if b then
            (case body s of
               None \<Rightarrow> None
             | Some (Inl e) \<Rightarrow> Some (Inl e)
             | Some (Inr s') \<Rightarrow> while_loop cond body s')
          else Some (Inr s))"

declare while_loop.simps [code]

section \<open>levenshtein.py\<close>

subsection \<open>\<open>levenshtein_distance\<close>: the full table\<close>

definition dp_cell :: "string \<Rightarrow> string \<Rightarrow> int \<Rightarrow> int \<Rightarrow> int list list \<Rightarrow> py_error + int list list" where
  "dp_cell a b i j dp =
     bindE (py_get a (i - 1)) (\<lambda>ca.
     bindE (py_get b (j - 1)) (\<lambda>cb.
     let cost = (if ca = cb then 0 else 1) in
     bindE (get2 dp (i - 1) j) (\<lambda>del.
     bindE (get2 dp i (j - 1)) (\<lambda>ins.
     bindE (get2 dp (i - 1) (j - 1)) (\<lambda>sub.
     set2 dp i j (min (del + 1) (min (ins + 1) (sub + cost))))))))"

definition levenshtein_distance :: "string \<Rightarrow> string \<Rightarrow> py_error + int" where
  "levenshtein_distance a b =
     (let n = int (length a); m = int (length b) in
      if n = 0 then Inr m
      else if m = 0 then Inr n
      else
        bindE (for_loop (py_range 0 (n + 1)) (\<lambda>i dp. set2 dp i 0 i)
                 (py_repeat (py_repeat 0 (m + 1)) (n + 1))) (\<lambda>dp.
        bindE (for_loop (py_range 0 (m + 1)) (\<lambda>j dp. set2 dp 0 j j) dp) (\<lambda>dp.
        bindE (for_loop (py_range 1 (n + 1))
                 (\<lambda>i dp. for_loop (py_range 1 (m + 1)) (\<lambda>j dp. dp_cell a b i j dp) dp) dp) (\<lambda>dp.
        get2 dp n m))))"

subsection \<open>\<open>levenshtein_search\<close>: one full table per window\<close>

definition levenshtein_search :: "string \<Rightarrow> string \<Rightarrow> int \<Rightarrow> py_error + int list" where
  "levenshtein_search text pattern max_distance =
     (let n = int (length text); m = int (length pattern) in
      if m = 0 then Inr (py_range 0 (n + 1))
      else if n < m then Inr []
      else
        for_loop (py_range 0 (n - m + 1))
          (\<lambda>start matches.
             let substring = py_slice text start (start + m) in
             bindE (levenshtein_distance substring pattern) (\<lambda>dist.
             Inr (if dist \<le> max_distance then matches @ [start] else matches)))
          [])"

subsection \<open>\<open>levenshtein_search_optimized\<close>: two rolling rows per window\<close>

definition roll_cell :: "string \<Rightarrow> string \<Rightarrow> int list \<Rightarrow> int \<Rightarrow> int \<Rightarrow> int list \<Rightarrow> py_error + int list" where
  "roll_cell s pattern prev i j cur =
     bindE (py_get s (i - 1)) (\<lambda>cs.
     bindE (py_get pattern (j - 1)) (\<lambda>cp.
     let cost = (if cs = cp then 0 else 1) in
     bindE (py_get prev j) (\<lambda>del.
     bindE (py_get cur (j - 1)) (\<lambda>ins.
     bindE (py_get prev (j - 1)) (\<lambda>sub.
     py_set cur j (min (del + 1) (min (ins + 1) (sub + cost))))))))"

definition roll_row :: "string \<Rightarrow> string \<Rightarrow> int \<Rightarrow> int \<Rightarrow> int list \<times> int list \<Rightarrow> py_error + int list \<times> int list" where
  "roll_row s pattern m i pc =
     (case pc of (prev, cur) \<Rightarrow>
        bindE (py_set cur 0 i) (\<lambda>cur.
        bindE (for_loop (py_range 1 (m + 1)) (\<lambda>j cur. roll_cell s pattern prev i j cur) cur) (\<lambda>cur.
        Inr (cur, prev))))"

definition roll_window :: "string \<Rightarrow> string \<Rightarrow> int \<Rightarrow> py_error + int" where
  "roll_window s pattern m =
     bindE (for_loop (py_range 1 (m + 1)) (\<lambda>i pc. roll_row s pattern m i pc)
              (py_range 0 (m + 1), py_repeat 0 (m + 1))) (\<lambda>pc.
     py_get (fst pc) m)"

definition levenshtein_search_optimized :: "string \<Rightarrow> string \<Rightarrow> int \<Rightarrow> py_error + int list" where
  "levenshtein_search_optimized text pattern max_distance =
     (let n = int (length text); m = int (length pattern) in
      if m = 0 then Inr (py_range 0 (n + 1))
      else if n < m then Inr []
      else
        for_loop (py_range 0 (n - m + 1))
          (\<lambda>start matches.
             let substring = py_slice text start (start + m) in
             bindE (roll_window substring pattern m) (\<lambda>dist.
             Inr (if dist \<le> max_distance then matches @ [start] else matches)))
          [])"

subsection \<open>\<open>levenshtein_search_diagonal\<close>: one banded pass over the text\<close>

text \<open>The band of row \<open>i\<close> is filled first, from the fresh row \<open>curr =\<close> \<open>[0] * (m + 1)\<close>; the cells
  left and right of it are overwritten with \<open>max_distance + 5\<close> afterwards.\<close>

definition band_cell :: "string \<Rightarrow> string \<Rightarrow> int list \<Rightarrow> int \<Rightarrow> int \<Rightarrow> int list \<Rightarrow> py_error + int list" where
  "band_cell text pattern prev i j cur =
     bindE (py_get text (i - 1)) (\<lambda>ct.
     bindE (py_get pattern (j - 1)) (\<lambda>cp.
     let cost = (if ct = cp then 0 else 1) in
     bindE (py_get cur (j - 1)) (\<lambda>c. let ins = c + 1 in
     bindE (py_get prev j) (\<lambda>p. let delete = p + 1 in
     bindE (py_get prev (j - 1)) (\<lambda>q. let subst = q + cost in
     py_set cur j (min ins (min delete subst)))))))"

definition band_fill :: "string \<Rightarrow> string \<Rightarrow> int list \<Rightarrow> int \<Rightarrow> int \<Rightarrow> int \<Rightarrow> int list \<Rightarrow> py_error + int list" where
  "band_fill text pattern prev i start_j end_j cur =
     for_loop (py_range start_j (end_j + 1)) (\<lambda>j cur. band_cell text pattern prev i j cur) cur"

definition diagonal_row :: "string \<Rightarrow> string \<Rightarrow> int \<Rightarrow> int \<Rightarrow> int \<Rightarrow> int list \<Rightarrow> py_error + int list" where
  "diagonal_row text pattern max_distance m i prev =
     (let cur = py_repeat 0 (m + 1);
          start_j = max 1 (i - max_distance);
          end_j = min m (i + max_distance) in
      bindE (py_set cur 0 i) (\<lambda>cur.
      bindE (band_fill text pattern prev i start_j end_j cur) (\<lambda>cur.
      bindE (for_loop (py_range 1 start_j) (\<lambda>j cur. py_set cur j (max_distance + 5)) cur) (\<lambda>cur.
      for_loop (py_range (end_j + 1) (m + 1)) (\<lambda>j cur. py_set cur j (max_distance + 5)) cur))))"

definition diagonal_step :: "string \<Rightarrow> string \<Rightarrow> int \<Rightarrow> int \<Rightarrow> int \<Rightarrow> int list \<times> int list \<Rightarrow> py_error + int list \<times> int list" where
  "diagonal_step text pattern max_distance m i pm =
     (case pm of (prev, matches) \<Rightarrow>
        bindE (diagonal_row text pattern max_distance m i prev) (\<lambda>cur.
        if i \<ge> m then
          bindE (py_get cur m) (\<lambda>v.
          Inr (cur, if v \<le> max_distance then matches @ [i - m] else matches))
        else Inr (cur, matches)))"

definition levenshtein_search_diagonal :: "string \<Rightarrow> string \<Rightarrow> int \<Rightarrow> py_error + int list" where
  "levenshtein_search_diagonal text pattern max_distance =
     (let n = int (length text); m = int (length pattern) in
      if m = 0 then Inr (py_range 0 (n + 1))
      else if n < m then Inr []
      else
        bindE (for_loop (py_range 1 (n + 1)) (\<lambda>i pm. diagonal_step text pattern max_distance m i pm)
                 (py_range 0 (m + 1), [])) (\<lambda>pm.
        Inr (snd pm)))"

subsection \<open>\<open>count_comparisons_levenshtein\<close>: the rolling rows with a counter\<close>

definition count_cell :: "string \<Rightarrow> string \<Rightarrow> int \<Rightarrow> int list \<Rightarrow> int \<Rightarrow> int \<Rightarrow> int list \<times> int \<Rightarrow> py_error + int list \<times> int" where
  "count_cell text pattern start prev i j cc =
     (case cc of (cur, comparisons) \<Rightarrow>
        let comparisons = comparisons + 1 in
        bindE (py_get text (start + i - 1)) (\<lambda>ct.
        bindE (py_get pattern (j - 1)) (\<lambda>cp.
        let cost = (if ct = cp then 0 else 1) in
        bindE (py_get prev j) (\<lambda>del.
        bindE (py_get cur (j - 1)) (\<lambda>ins.
        bindE (py_get prev (j - 1)) (\<lambda>sub.
        bindE (py_set cur j (min (del + 1) (min (ins + 1) (sub + cost)))) (\<lambda>cur.
        Inr (cur, comparisons))))))))"

definition count_row :: "string \<Rightarrow> string \<Rightarrow> int \<Rightarrow> int \<Rightarrow> int \<Rightarrow> (int list \<times> int list) \<times> int \<Rightarrow> py_error + (int list \<times> int list) \<times> int" where
  "count_row text pattern start m i pcc =
     (case pcc of ((prev, cur), comparisons) \<Rightarrow>
        bindE (py_set cur 0 i) (\<lambda>cur.
        bindE (for_loop (py_range 1 (m + 1)) (\<lambda>j cc. count_cell text pattern start prev i j cc)
                 (cur, comparisons)) (\<lambda>cc.
        Inr ((fst cc, prev), snd cc))))"

definition count_window :: "string \<Rightarrow> string \<Rightarrow> int \<Rightarrow> int \<Rightarrow> int \<Rightarrow> py_error + int \<times> int" where
  "count_window text pattern start m comparisons =
     bindE (for_loop (py_range 1 (m + 1)) (\<lambda>i pcc. count_row text pattern start m i pcc)
              ((py_range 0 (m + 1), py_repeat 0 (m + 1)), comparisons)) (\<lambda>pcc.
     bindE (py_get (fst (fst pcc)) m) (\<lambda>v. Inr (v, snd pcc)))"

definition count_comparisons_levenshtein :: "string \<Rightarrow> string \<Rightarrow> int \<Rightarrow> py_error + int list \<times> int" where
  "count_comparisons_levenshtein text pattern max_distance =
     (let n = int (length text); m = int (length pattern); comparisons = 0 in
      if m = 0 then Inr (py_range 0 (n + 1), 0)
      else if n < m then Inr ([], 0)
      else
        for_loop (py_range 0 (n - m + 1))
          (\<lambda>start mc.
             bindE (count_window text pattern start m (snd mc)) (\<lambda>vc.
             Inr (if fst vc \<le> max_distance then fst mc @ [start] else fst mc, snd vc)))
          ([], comparisons))"

section \<open>native.py\<close>

text \<open>
  \<open>text.find(pattern, start)\<close> is Python's built-in: the lowest index \<open>idx \<ge> start\<close> with
  \<open>text[idx:idx + len(pattern)] == pattern\<close>, or \<open>-1\<close>; a \<open>start\<close> beyond the end of the
  text finds nothing, a negative one counts from the end.
\<close>

function find_from :: "string \<Rightarrow> string \<Rightarrow> nat \<Rightarrow> int" where
  "find_from text pattern idx =
     (if idx + length pattern \<le> length text then
        if take (length pattern) (drop idx text) = pattern then int idx
        else find_from text pattern (Suc idx)
      else - 1)"
  by pat_completeness auto
termination
  by (relation "measure (\<lambda>(text, pattern, idx). Suc (length text) - idx)") auto

declare find_from.simps [simp del]

definition py_find :: "string \<Rightarrow> string \<Rightarrow> int \<Rightarrow> int" where
  "py_find text pattern start =
     (let n = int (length text) in
      if start > n then - 1 else find_from text pattern (py_clip n start))"

function native_loop :: "string \<Rightarrow> string \<Rightarrow> int \<Rightarrow> int list \<Rightarrow> int list" where
  "native_loop text pattern start matches =
     (let idx = py_find text pattern start in
      if idx = - 1 then matches
      else native_loop text pattern (idx + 1) (matches @ [idx]))"
  by pat_completeness auto
termination
proof (relation "measure (\<lambda>(text, pattern, start, matches). nat (int (length text) + 1 - start))")
  show "wf (measure (\<lambda>(text, pattern, start, matches). nat (int (length text) + 1 - start)))"
    by simp
next
  fix t p :: string and start :: int and matches :: "int list" and idx :: int
  assume idx: "idx = py_find t p start" and found: "idx \<noteq> - 1"
  have bounds: "find_from t p k \<noteq> - 1 \<Longrightarrow> int k \<le> find_from t p k \<and> find_from t p k \<le> int (length t)"
    for k
  proof (induction t p k rule: find_from.induct)
    case (1 t p k)
    then show ?case
      by (subst (asm) (3) find_from.simps, subst find_from.simps, subst (2) find_from.simps)
         (auto split: if_splits)
  qed
  from idx found have le: "start \<le> int (length t)"
    by (auto simp: py_find_def Let_def split: if_splits)
  with idx found have "idx = find_from t p (py_clip (int (length t)) start)"
    by (simp add: py_find_def Let_def)
  with found bounds have "int (py_clip (int (length t)) start) \<le> idx" "idx \<le> int (length t)"
    by metis+
  moreover have "start \<le> int (py_clip (int (length t)) start)"
    using le by (auto simp: py_clip_def)
  ultimately show "((t, p, idx + 1, matches @ [idx]), (t, p, start, matches))
      \<in> measure (\<lambda>(text, pattern, start, matches). nat (int (length text) + 1 - start))"
    by simp
qed

declare native_loop.simps [simp del]

definition native_search :: "string \<Rightarrow> string \<Rightarrow> int list" where
  "native_search text pattern = native_loop text pattern 0 []"

section \<open>kmp.py\<close>

subsection \<open>\<open>compute_lps_table\<close>\<close>

text \<open>The loop state is \<open>(lps, j, i)\<close>.\<close>

definition lps_body :: "string \<Rightarrow> int list \<times> int \<times> int \<Rightarrow> py_error + int list \<times> int \<times> int" where
  "lps_body pattern s =
     (case s of (lps, j, i) \<Rightarrow>
        bindE (py_get pattern i) (\<lambda>pi.
        bindE (py_get pattern j) (\<lambda>pj.
        if pi = pj then
          bindE (py_set lps i (j + 1)) (\<lambda>lps. Inr (lps, j + 1, i + 1))
        else if j \<noteq> 0 then
          bindE (py_get lps (j - 1)) (\<lambda>j. Inr (lps, j, i))
        else
          bindE (py_set lps i 0) (\<lambda>lps. Inr (lps, j, i + 1)))))"

definition compute_lps_table :: "string \<Rightarrow> int list run" where
  "compute_lps_table pattern =
     (let len = int (length pattern); lps = py_repeat 0 len; j = 0; i = 1 in
      bindR (while_loop (\<lambda>(lps, j, i). Inr (i < len)) (\<lambda>s. Some (lps_body pattern s)) (lps, j, i))
        (\<lambda>(lps, j, i). Some (Inr lps)))"

subsection \<open>\<open>kmp_search\<close>\<close>

text \<open>The loop state is \<open>(i, j, occurrences)\<close>. The first \<open>if\<close> advances both indices; the
  \<open>if\<close>/\<open>elif\<close> after it sees the advanced indices.\<close>

definition kmp_body :: "string \<Rightarrow> string \<Rightarrow> int list \<Rightarrow> int \<times> int \<times> int list \<Rightarrow> py_error + int \<times> int \<times> int list" where
  "kmp_body text pattern lps s =
     (case s of (i, j, occurrences) \<Rightarrow>
        let n = int (length text); m = int (length pattern) in
        bindE (py_get pattern j) (\<lambda>pj.
        bindE (py_get text i) (\<lambda>ti.
        let i = (if pj = ti then i + 1 else i);
            j = (if pj = ti then j + 1 else j) in
        if j = m then
          bindE (py_get lps (j - 1)) (\<lambda>j'. Inr (i, j', occurrences @ [i - j]))
        else
          bindE (if i < n
                 then bindE (py_get pattern j) (\<lambda>pj. bindE (py_get text i) (\<lambda>ti. Inr (pj \<noteq> ti)))
                 else Inr False) (\<lambda>mismatch.
          if mismatch then
            if j \<noteq> 0 then bindE (py_get lps (j - 1)) (\<lambda>j'. Inr (i, j', occurrences))
            else Inr (i + 1, j, occurrences)
          else Inr (i, j, occurrences)))))"

definition kmp_search :: "string \<Rightarrow> string \<Rightarrow> int list run" where
  "kmp_search text pattern =
     (if pattern = [] then Some (Inr [])
      else if length pattern > length text then Some (Inr [])
      else
        let n = int (length text) in
        bindR (compute_lps_table pattern) (\<lambda>lps.
        bindR (while_loop (\<lambda>(i, j, occurrences). Inr (i < n))
                 (\<lambda>s. Some (kmp_body text pattern lps s)) (0, 0, []))
          (\<lambda>(i, j, occurrences). Some (Inr occurrences))))"

subsection \<open>\<open>count_comparisons_kmp\<close>\<close>

text \<open>The loop state is \<open>(i, j, occurrences, comparisons)\<close>.\<close>

definition kmp_count_body :: "string \<Rightarrow> string \<Rightarrow> int list \<Rightarrow> int \<times> int \<times> int list \<times> int \<Rightarrow> py_error + int \<times> int \<times> int list \<times> int" where
  "kmp_count_body text pattern lps s =
     (case s of (i, j, occurrences, comparisons) \<Rightarrow>
        let m = int (length pattern); comparisons = comparisons + 1 in
        bindE (py_get pattern j) (\<lambda>pj.
        bindE (py_get text i) (\<lambda>ti.
        if pj = ti then
          let i = i + 1; j = j + 1 in
          if j = m then
            bindE (py_get lps (j - 1)) (\<lambda>j'. Inr (i, j', occurrences @ [i - j], comparisons))
          else Inr (i, j, occurrences, comparisons)
        else if j \<noteq> 0 then
          bindE (py_get lps (j - 1)) (\<lambda>j'. Inr (i, j', occurrences, comparisons))
        else Inr (i + 1, j, occurrences, comparisons))))"

definition count_comparisons_kmp :: "string \<Rightarrow> string \<Rightarrow> (int list \<times> int) run" where
  "count_comparisons_kmp text pattern =
     (if pattern = [] \<or> length pattern > length text then Some (Inr ([], 0))
      else
        let n = int (length text) in
        bindR (compute_lps_table pattern) (\<lambda>lps.
        bindR (while_loop (\<lambda>(i, j, occurrences, comparisons). Inr (i < n))
                 (\<lambda>s. Some (kmp_count_body text pattern lps s)) (0, 0, [], 0))
          (\<lambda>(i, j, occurrences, comparisons). Some (Inr (occurrences, comparisons)))))"

section \<open>boyer_moore.py\<close>

subsection \<open>\<open>bad_character_table\<close>\<close>

definition bad_character_table :: "string \<Rightarrow> py_error + (char \<rightharpoonup> int)" where
  "bad_character_table pattern =
     for_loop (py_range 0 (int (length pattern)))
       (\<lambda>i bad_char. bindE (py_get pattern i) (\<lambda>c. Inr (bad_char(c \<mapsto> i))))
       Map.empty"

text \<open>\<open>bad_char.get(c, -1)\<close>\<close>

definition dict_get :: "('k \<rightharpoonup> int) \<Rightarrow> 'k \<Rightarrow> int \<Rightarrow> int" where
  "dict_get d k dflt = (case d k of None \<Rightarrow> dflt | Some v \<Rightarrow> v)"

subsection \<open>\<open>good_suffix_table\<close>\<close>

text \<open>The inner \<open>while\<close> of the first phase works on \<open>(shift, j)\<close>, with \<open>border\<close> and \<open>i\<close>
  fixed; the outer one on \<open>(shift, border, i, j)\<close>.\<close>

definition gs_inner_cond :: "string \<Rightarrow> int \<Rightarrow> int \<Rightarrow> int list \<times> int \<Rightarrow> py_error + bool" where
  "gs_inner_cond pattern m i s =
     (case s of (shift, j) \<Rightarrow>
        if j \<le> m then
          bindE (py_get pattern (i - 1)) (\<lambda>a.
          bindE (py_get pattern (j - 1)) (\<lambda>b. Inr (a \<noteq> b)))
        else Inr False)"

definition gs_inner_body :: "int \<Rightarrow> int list \<Rightarrow> int \<Rightarrow> int list \<times> int \<Rightarrow> py_error + int list \<times> int" where
  "gs_inner_body m border i s =
     (case s of (shift, j) \<Rightarrow>
        bindE (py_get shift (j - 1)) (\<lambda>v.
        bindE (if v = m then py_set shift (j - 1) (j - i) else Inr shift) (\<lambda>shift.
        bindE (py_get border j) (\<lambda>j'. Inr (shift, j')))))"

definition gs_outer_body :: "string \<Rightarrow> int \<Rightarrow> int list \<times> int list \<times> int \<times> int \<Rightarrow> (int list \<times> int list \<times> int \<times> int) run" where
  "gs_outer_body pattern m s =
     (case s of (shift, border, i, j) \<Rightarrow>
        bindR (while_loop (gs_inner_cond pattern m i) (\<lambda>s. Some (gs_inner_body m border i s)) (shift, j))
          (\<lambda>(shift, j).
             let i = i - 1; j = j - 1 in
             Some (bindE (py_set border i j) (\<lambda>border. Inr (shift, border, i, j)))))"

definition gs_fill_body :: "int \<Rightarrow> int list \<Rightarrow> int \<Rightarrow> int list \<times> int \<Rightarrow> py_error + int list \<times> int" where
  "gs_fill_body m border i s =
     (case s of (shift, j) \<Rightarrow>
        bindE (py_get shift i) (\<lambda>v.
        bindE (if v = m then py_set shift i j else Inr shift) (\<lambda>shift.
        if i = j then bindE (py_get border j) (\<lambda>j'. Inr (shift, j'))
        else Inr (shift, j))))"

definition good_suffix_table :: "string \<Rightarrow> int list run" where
  "good_suffix_table pattern =
     (let m = int (length pattern);
          shift = py_repeat m m;
          border = py_repeat 0 (m + 1);
          i = m;
          j = m + 1 in
      bindR (Some (py_set border i j)) (\<lambda>border.
      bindR (while_loop (\<lambda>(shift, border, i, j). Inr (i > 0)) (gs_outer_body pattern m)
               (shift, border, i, j)) (\<lambda>(shift, border, i, j).
      bindR (Some (py_get border 0)) (\<lambda>j.
      bindR (Some (for_loop (py_range 0 m) (gs_fill_body m border) (shift, j))) (\<lambda>(shift, j).
      Some (Inr shift))))))"

subsection \<open>\<open>boyer_moore_search\<close>\<close>

text \<open>The right-to-left comparison works on \<open>j\<close>; the scan on \<open>(shift_amount, matches)\<close>.\<close>

definition bm_compare_cond :: "string \<Rightarrow> string \<Rightarrow> int \<Rightarrow> int \<Rightarrow> py_error + bool" where
  "bm_compare_cond text pattern shift_amount j =
     (if j \<ge> 0 then
        bindE (py_get pattern j) (\<lambda>a.
        bindE (py_get text (shift_amount + j)) (\<lambda>b. Inr (a = b)))
      else Inr False)"

definition bm_advance :: "string \<Rightarrow> (char \<rightharpoonup> int) \<Rightarrow> int list \<Rightarrow> int \<Rightarrow> int \<Rightarrow> int \<Rightarrow> int \<Rightarrow> int list \<Rightarrow> py_error + int \<times> int list" where
  "bm_advance text bad_char good_suffix n m shift_amount j matches =
     (if j < 0 then
        bindE (if shift_amount + m < n then py_get good_suffix 0 else Inr 1) (\<lambda>d.
        Inr (shift_amount + d, matches @ [shift_amount]))
      else
        bindE (py_get text (shift_amount + j)) (\<lambda>c.
        let bad_char_shift = j - dict_get bad_char c (- 1) in
        bindE (py_get good_suffix j) (\<lambda>good_suffix_shift.
        Inr (shift_amount + max bad_char_shift good_suffix_shift, matches))))"

definition bm_body :: "string \<Rightarrow> string \<Rightarrow> (char \<rightharpoonup> int) \<Rightarrow> int list \<Rightarrow> int \<times> int list \<Rightarrow> (int \<times> int list) run" where
  "bm_body text pattern bad_char good_suffix s =
     (case s of (shift_amount, matches) \<Rightarrow>
        let n = int (length text); m = int (length pattern) in
        bindR (while_loop (bm_compare_cond text pattern shift_amount) (\<lambda>j. Some (Inr (j - 1))) (m - 1))
          (\<lambda>j. Some (bm_advance text bad_char good_suffix n m shift_amount j matches)))"

definition boyer_moore_search :: "string \<Rightarrow> string \<Rightarrow> int list run" where
  "boyer_moore_search text pattern =
     (if pattern = [] then Some (Inr [])
      else
        let n = int (length text); m = int (length pattern) in
        if m > n then Some (Inr [])
        else
          bindR (Some (bad_character_table pattern)) (\<lambda>bad_char.
          bindR (good_suffix_table pattern) (\<lambda>good_suffix.
          bindR (while_loop (\<lambda>(shift_amount, matches). Inr (shift_amount \<le> n - m))
                   (bm_body text pattern bad_char good_suffix) (0, []))
            (\<lambda>(shift_amount, matches). Some (Inr matches)))))"

subsection \<open>\<open>count_comparisons_boyer_moore\<close>\<close>

text \<open>The comparison loop counts before it compares and leaves by \<open>break\<close> on a mismatch:
  its state is \<open>(j, comparisons, stop)\<close>, where \<open>stop\<close> records the \<open>break\<close>.\<close>

definition bm_count_compare_body :: "string \<Rightarrow> string \<Rightarrow> int \<Rightarrow> int \<times> int \<times> bool \<Rightarrow> py_error + int \<times> int \<times> bool" where
  "bm_count_compare_body text pattern shift_amount s =
     (case s of (j, comparisons, stop) \<Rightarrow>
        let comparisons = comparisons + 1 in
        bindE (py_get pattern j) (\<lambda>a.
        bindE (py_get text (shift_amount + j)) (\<lambda>b.
        if a \<noteq> b then Inr (j, comparisons, True)
        else Inr (j - 1, comparisons, False))))"

definition bm_count_body :: "string \<Rightarrow> string \<Rightarrow> (char \<rightharpoonup> int) \<Rightarrow> int list \<Rightarrow> int \<times> int list \<times> int \<Rightarrow> (int \<times> int list \<times> int) run" where
  "bm_count_body text pattern bad_char good_suffix s =
     (case s of (shift_amount, matches, comparisons) \<Rightarrow>
        let n = int (length text); m = int (length pattern) in
        bindR (while_loop (\<lambda>(j, comparisons, stop). Inr (\<not> stop \<and> j \<ge> 0))
                 (\<lambda>s. Some (bm_count_compare_body text pattern shift_amount s))
                 (m - 1, comparisons, False))
          (\<lambda>(j, comparisons, stop).
             Some (bindE (bm_advance text bad_char good_suffix n m shift_amount j matches)
                     (\<lambda>(shift_amount, matches). Inr (shift_amount, matches, comparisons)))))"

definition count_comparisons_boyer_moore :: "string \<Rightarrow> string \<Rightarrow> (int list \<times> int) run" where
  "count_comparisons_boyer_moore text pattern =
     (if pattern = [] then Some (Inr ([], 0))
      else
        let n = int (length text); m = int (length pattern) in
        if m > n then Some (Inr ([], 0))
        else
          bindR (Some (bad_character_table pattern)) (\<lambda>bad_char.
          bindR (good_suffix_table pattern) (\<lambda>good_suffix.
          bindR (while_loop (\<lambda>(shift_amount, matches, comparisons). Inr (shift_amount \<le> n - m))
                   (bm_count_body text pattern bad_char good_suffix) (0, [], 0))
            (\<lambda>(shift_amount, matches, comparisons). Some (Inr (matches, comparisons))))))"

section \<open>Reference notions\<close>

text \<open>
  The edit distance as a recursion on the two sequences, against which the tables are
  measured: \<open>lev\<close> works from the front, and the table cell \<open>(i, j)\<close> holds the distance
  of the reversed prefixes of lengths \<open>i\<close> and \<open>j\<close>, so that the last symbols of the
  prefixes are the heads. \<open>shape\<close>, \<open>filled\<close> and \<open>row_ok\<close> are the loop invariants of
  the table and of a rolling row; \<open>window_dist\<close> is the distance of the window at an
  offset.
\<close>

fun lev :: "'a list \<Rightarrow> 'a list \<Rightarrow> nat" where
  "lev [] ys = length ys"
| "lev (x # xs) [] = Suc (length xs)"
| "lev (x # xs) (y # ys) =
     min (lev xs (y # ys) + 1) (min (lev (x # xs) ys + 1) (lev xs ys + (if x = y then 0 else 1)))"

definition shape :: "int \<Rightarrow> int \<Rightarrow> 'a list list \<Rightarrow> bool" where
  "shape n m dp \<longleftrightarrow> length dp = nat (n + 1) \<and> (\<forall>row \<in> set dp. length row = nat (m + 1))"

definition cell :: "'a list \<Rightarrow> 'a list \<Rightarrow> int \<Rightarrow> int \<Rightarrow> int" where
  "cell a b i j = int (lev (rev (take (nat i) a)) (rev (take (nat j) b)))"

definition filled :: "string \<Rightarrow> string \<Rightarrow> int list list \<Rightarrow> int \<Rightarrow> int \<Rightarrow> bool" where
  "filled a b dp i j \<longleftrightarrow>
     shape (int (length a)) (int (length b)) dp \<and>
     (\<forall>k l. 0 \<le> k \<and> k \<le> int (length a) \<and> 0 \<le> l \<and> l \<le> int (length b) \<and>
            (k = 0 \<or> l = 0 \<or> k < i \<or> (k = i \<and> l < j)) \<longrightarrow> get2 dp k l = Inr (cell a b k l))"

definition row_ok :: "string \<Rightarrow> string \<Rightarrow> int \<Rightarrow> int \<Rightarrow> int list \<Rightarrow> bool" where
  "row_ok s p i j xs \<longleftrightarrow>
     length xs = Suc (length p) \<and>
     (\<forall>l. 0 \<le> l \<and> l < j \<longrightarrow> py_get xs l = Inr (cell s p i l))"

definition window_dist :: "string \<Rightarrow> string \<Rightarrow> int \<Rightarrow> int" where
  "window_dist t p start =
     int (lev (rev (py_slice t start (start + int (length p)))) (rev p))"

text \<open>
  Exact matching. \<open>occurs t p s\<close>: the pattern \<open>p\<close> stands in the text \<open>t\<close> at offset
  \<open>s\<close>; \<open>pmatch t s p l\<close>: the first \<open>l\<close> symbols of \<open>p\<close> stand in \<open>t\<close> at offset \<open>s\<close>.
  \<open>border p k b\<close>: the prefix of length \<open>b\<close> of \<open>p\<close> is a proper suffix of the prefix of
  length \<open>k\<close>; \<open>lborder\<close> is the longest one, which is what an LPS table has to hold
  (\<open>lps_ok\<close>). \<open>all_occ t p k\<close> lists the offsets below \<open>k\<close> at which \<open>p\<close> occurs, in
  ascending order. \<open>lps_inv\<close> and \<open>kmp_inv\<close> are the invariants of the two KMP loops, and
  \<open>kstep\<close> is one elementary move of the scan (a match or a fall-back).
\<close>

definition occurs :: "'a list \<Rightarrow> 'a list \<Rightarrow> nat \<Rightarrow> bool" where
  "occurs t p s \<longleftrightarrow> s + length p \<le> length t \<and> take (length p) (drop s t) = p"

definition pmatch :: "'a list \<Rightarrow> nat \<Rightarrow> 'a list \<Rightarrow> nat \<Rightarrow> bool" where
  "pmatch t s p l \<longleftrightarrow> s + l \<le> length t \<and> l \<le> length p \<and> (\<forall>x<l. t ! (s + x) = p ! x)"

definition border :: "'a list \<Rightarrow> nat \<Rightarrow> nat \<Rightarrow> bool" where
  "border p k b \<longleftrightarrow> b < k \<and> k \<le> length p \<and> pmatch p (k - b) p b"

definition lborder :: "'a list \<Rightarrow> nat \<Rightarrow> nat \<Rightarrow> bool" where
  "lborder p k b \<longleftrightarrow> border p k b \<and> (\<forall>c. border p k c \<longrightarrow> c \<le> b)"

definition lps_ok :: "'a list \<Rightarrow> int list \<Rightarrow> bool" where
  "lps_ok p lps \<longleftrightarrow> length lps = length p \<and>
     (\<forall>k<length p. \<exists>b. lps ! k = int b \<and> lborder p (Suc k) b)"

definition lps_inv :: "'a list \<Rightarrow> int list \<times> int \<times> int \<Rightarrow> bool" where
  "lps_inv p s \<longleftrightarrow> (case s of (lps, j, i) \<Rightarrow>
     0 \<le> j \<and> j < i \<and> i \<le> int (length p) \<and> length lps = length p \<and>
     (\<forall>k<nat i. \<exists>b. lps ! k = int b \<and> lborder p (Suc k) b) \<and>
     border p (nat i) (nat j) \<and>
     (\<forall>b. border p (nat i) b \<and> p ! b = p ! nat i \<longrightarrow> b \<le> nat j))"

definition all_occ :: "'a list \<Rightarrow> 'a list \<Rightarrow> nat \<Rightarrow> int list" where
  "all_occ t p k = map int (filter (occurs t p) [0..<k])"

definition kmp_inv :: "'a list \<Rightarrow> 'a list \<Rightarrow> int \<times> int \<times> int list \<Rightarrow> bool" where
  "kmp_inv t p s \<longleftrightarrow> (case s of (i, j, occ) \<Rightarrow>
     0 \<le> j \<and> j < int (length p) \<and> j \<le> i \<and> i \<le> int (length t) \<and>
     pmatch t (nat (i - j)) p (nat j) \<and> occ = all_occ t p (nat (i - j)))"

definition kstep :: "'a list \<Rightarrow> 'a list \<Rightarrow> int list \<Rightarrow> int \<times> int \<times> int list \<Rightarrow> int \<times> int \<times> int list" where
  "kstep t p lps s = (case s of (i, j, occ) \<Rightarrow>
     if p ! nat j = t ! nat i then
       (if j + 1 = int (length p) then (i + 1, lps ! nat j, occ @ [i + 1 - (j + 1)])
        else (i + 1, j + 1, occ))
     else if j \<noteq> 0 then (i, lps ! nat (j - 1), occ)
     else (i + 1, j, occ))"

text \<open>
  Boyer--Moore. \<open>sborder p i j\<close>: the suffix of \<open>p\<close> from position \<open>j\<close> is a proper border
  of the suffix from position \<open>i\<close>; \<open>wide p i j\<close>: it is the widest one, with
  \<open>len(p) + 1\<close> standing for none, which is what the border array of the preprocessing has
  to hold (\<open>btab\<close>). \<open>can_shift p jj d\<close>: after a mismatch at pattern index \<open>jj\<close> with
  everything to its right matched, an occurrence \<open>d\<close> places further right is not excluded.
  \<open>gs_ok\<close>: every entry of a good-suffix table is between 1 and \<open>len(p)\<close> and skips no
  shift that is not excluded; \<open>bc_ok\<close>: the bad-character table gives at least the index
  of every occurrence of a symbol. \<open>qinv\<close>, \<open>pinv\<close>, \<open>inner_inv\<close>, \<open>outer_inv\<close> and
  \<open>fill_inv\<close> are the invariants of the loops of the preprocessing, \<open>cmp_ok\<close> the one of the
  right-to-left comparison and \<open>bm_inv\<close> the one of the scan.
\<close>

definition sborder :: "'a list \<Rightarrow> nat \<Rightarrow> nat \<Rightarrow> bool" where
  "sborder p i j \<longleftrightarrow> i < j \<and> j \<le> length p \<and> (\<forall>x. j + x < length p \<longrightarrow> p ! (i + x) = p ! (j + x))"

definition wide :: "'a list \<Rightarrow> nat \<Rightarrow> nat \<Rightarrow> bool" where
  "wide p i j \<longleftrightarrow>
     (if i = length p then j = Suc (length p)
      else sborder p i j \<and> (\<forall>j'. sborder p i j' \<longrightarrow> j \<le> j'))"

definition can_shift :: "'a list \<Rightarrow> nat \<Rightarrow> nat \<Rightarrow> bool" where
  "can_shift p jj d \<longleftrightarrow>
     (\<forall>k. jj < k + d \<and> k + d < length p \<longrightarrow> p ! k = p ! (k + d)) \<and>
     (d \<le> jj \<longrightarrow> p ! (jj - d) \<noteq> p ! jj)"

definition gs_ok :: "'a list \<Rightarrow> int list \<Rightarrow> bool" where
  "gs_ok p gs \<longleftrightarrow> length gs = length p \<and>
     (\<forall>jj<length p. 1 \<le> gs ! jj \<and> gs ! jj \<le> int (length p) \<and>
        (\<forall>d. 1 \<le> d \<and> int d < gs ! jj \<longrightarrow> \<not> can_shift p jj d))"

definition qinv :: "'a list \<Rightarrow> int list \<Rightarrow> int \<Rightarrow> bool" where
  "qinv p shift c \<longleftrightarrow> length shift = length p \<and>
     (\<forall>k<length p. shift ! k = int (length p) \<or> (1 \<le> shift ! k \<and> shift ! k + c \<le> int k + 1))"

definition pinv :: "'a list \<Rightarrow> int list \<Rightarrow> nat \<Rightarrow> bool" where
  "pinv p shift i \<longleftrightarrow>
     (\<forall>i' j'. i < i' \<and> sborder p i' j' \<and> p ! (i' - 1) \<noteq> p ! (j' - 1)
        \<longrightarrow> shift ! (j' - 1) \<le> int (j' - i'))"

definition btab :: "'a list \<Rightarrow> int list \<Rightarrow> nat \<Rightarrow> bool" where
  "btab p bord i \<longleftrightarrow> length bord = Suc (length p) \<and>
     (\<forall>k. i \<le> k \<and> k \<le> length p \<longrightarrow> (\<exists>b. bord ! k = int b \<and> wide p k b))"

definition inner_inv :: "'a list \<Rightarrow> int \<Rightarrow> int list \<times> int \<Rightarrow> bool" where
  "inner_inv p i s \<longleftrightarrow> (case s of (shift, j) \<Rightarrow>
     i < j \<and> j \<le> int (length p) + 1 \<and>
     (j \<le> int (length p) \<longrightarrow> sborder p (nat i) (nat j)) \<and>
     (\<forall>j'. sborder p (nat i) j' \<and> j' < nat j
        \<longrightarrow> p ! (nat i - 1) \<noteq> p ! (j' - 1) \<and> shift ! (j' - 1) \<le> int (j' - nat i)) \<and>
     qinv p shift i \<and> pinv p shift (nat i))"

definition outer_inv :: "'a list \<Rightarrow> int list \<times> int list \<times> int \<times> int \<Rightarrow> bool" where
  "outer_inv p s \<longleftrightarrow> (case s of (shift, bord, i, j) \<Rightarrow>
     0 \<le> i \<and> i \<le> int (length p) \<and> j = bord ! nat i \<and>
     btab p bord (nat i) \<and> qinv p shift (i + 1) \<and> pinv p shift (nat i))"

definition fill_inv :: "'a list \<Rightarrow> int \<Rightarrow> int list \<times> int \<Rightarrow> bool" where
  "fill_inv p i s \<longleftrightarrow> (case s of (shift, j) \<Rightarrow>
     length shift = length p \<and> 1 \<le> j \<and> j \<le> int (length p) \<and> i \<le> j \<and>
     sborder p 0 (nat j) \<and> (\<forall>d. sborder p 0 d \<and> nat i \<le> d \<longrightarrow> nat j \<le> d) \<and>
     (\<forall>k<nat i. 1 \<le> shift ! k \<and> shift ! k \<le> int (length p) \<and>
        (\<forall>d. 1 \<le> d \<and> int d < shift ! k \<longrightarrow> \<not> can_shift p k d)) \<and>
     (\<forall>k. nat i \<le> k \<and> k < length p \<longrightarrow>
        shift ! k = int (length p) \<or> (1 \<le> shift ! k \<and> shift ! k \<le> int k)) \<and>
     pinv p shift 0)"

definition bc_ok :: "'a list \<Rightarrow> ('a \<rightharpoonup> int) \<Rightarrow> bool" where
  "bc_ok p bc \<longleftrightarrow> (\<forall>c. - 1 \<le> dict_get bc c (- 1)) \<and> (\<forall>k<length p. int k \<le> dict_get bc (p ! k) (- 1))"

definition cmp_ok :: "'a list \<Rightarrow> 'a list \<Rightarrow> nat \<Rightarrow> int \<Rightarrow> bool" where
  "cmp_ok t p s j \<longleftrightarrow> - 1 \<le> j \<and> j < int (length p) \<and>
     (\<forall>k. j < int k \<and> k < length p \<longrightarrow> p ! k = t ! (s + k))"

definition bm_inv :: "'a list \<Rightarrow> 'a list \<Rightarrow> int \<times> int list \<Rightarrow> bool" where
  "bm_inv t p s \<longleftrightarrow> (case s of (shift_amount, matches) \<Rightarrow>
     0 \<le> shift_amount \<and> matches = all_occ t p (nat shift_amount))"

section \<open>Basic facts about the Python layer\<close>

lemma bindE_simps [simp]:
  "bindE (Inl e) f = Inl e"
  "bindE (Inr v) f = f v"
  by (simp_all add: bindE_def)

lemma bindR_simps [simp]:
  "bindR None g = None"
  "bindR (Some (Inl e)) g = Some (Inl e)"
  "bindR (Some (Inr v)) g = g v"
  by (simp_all add: bindR_def)

lemma py_get_in: "0 \<le> i \<Longrightarrow> i < int (length xs) \<Longrightarrow> py_get xs i = Inr (xs ! nat i)"
  by (simp add: py_get_def)

lemma py_get_nat: "k < length xs \<Longrightarrow> py_get xs (int k) = Inr (xs ! k)"
  by (simp add: py_get_def)

lemma py_set_in: "0 \<le> i \<Longrightarrow> i < int (length xs) \<Longrightarrow> py_set xs i v = Inr (xs[nat i := v])"
  by (simp add: py_set_def)

lemma py_set_nat: "k < length xs \<Longrightarrow> py_set xs (int k) v = Inr (xs[k := v])"
  by (simp add: py_set_def)

lemma py_range_empty [simp]: "b \<le> a \<Longrightarrow> py_range a b = []"
  by (simp add: py_range_def)

lemma py_range_first: "a < b \<Longrightarrow> py_range a b = a # py_range (a + 1) b"
  by (simp add: py_range_def upto_rec1)

lemma py_range_last: "a \<le> b \<Longrightarrow> py_range a (b + 1) = py_range a b @ [b]"
  by (simp add: py_range_def upto_rec2)

lemma for_loop_append:
  "for_loop (xs @ ys) body s = bindE (for_loop xs body s) (for_loop ys body)"
  by (induction xs arbitrary: s) (auto split: sum.splits)

section \<open>The empty pattern and the threshold\<close>

text \<open>
  C10. With the empty pattern each approximate search (naive, rolling-row, banded and the
  instrumented one) returns the offsets \<open>0 .. len(text)\<close>, for every text and every
  threshold, negative ones included: the empty-pattern branch comes before any use of
  \<open>max_distance\<close>.
\<close>

theorem empty_pattern_all_offsets:
  "levenshtein_search text [] d = Inr [0..int (length text)]
   \<and> levenshtein_search_optimized text [] d = Inr [0..int (length text)]
   \<and> levenshtein_search_diagonal text [] d = Inr [0..int (length text)]
   \<and> count_comparisons_levenshtein text [] d = Inr ([0..int (length text)], 0)"
  by (simp add: levenshtein_search_def levenshtein_search_optimized_def
      levenshtein_search_diagonal_def count_comparisons_levenshtein_def py_range_def)

section \<open>The banded strategy on concrete inputs\<close>

text \<open>
  C3. Text \<open>CCC\<close>, pattern \<open>AB\<close>, threshold 1. Rows 1 and 2 leave \<open>prev = [2, 2, 2]\<close>.
  The band of row 3 is the single column 2; column 1 of that row lies outside the band and
  still holds the 0 of the fresh row when the cell of column 2 reads it as its insertion
  predecessor, so that cell becomes \<open>0 + 1 \<le> 1\<close> and offset 1 is reported, although the
  window \<open>CC\<close> is at distance 2 from \<open>AB\<close> and the naive strategy reports nothing. The
  sentinel reaches column 1 only after the band has been filled.
\<close>

theorem diagonal_reads_stale_cell:
  "for_loop (py_range 1 3) (diagonal_step ''CCC'' ''AB'' 1 2) (py_range 0 3, []) = Inr ([2, 2, 2], [])
   \<and> py_set (py_repeat 0 3) 0 3 = Inr [3, 0, 0 :: int]
   \<and> max 1 (3 - 1) = (2 :: int)
   \<and> py_get [3, 0, 0 :: int] (2 - 1) = Inr 0
   \<and> band_fill ''CCC'' ''AB'' [2, 2, 2] 3 2 2 [3, 0, 0] = Inr [3, 0, 1]
   \<and> diagonal_row ''CCC'' ''AB'' 1 2 3 [2, 2, 2] = Inr [3, 6, 1]
   \<and> levenshtein_search_diagonal ''CCC'' ''AB'' 1 = Inr [1]
   \<and> levenshtein_search ''CCC'' ''AB'' 1 = Inr []"
  by code_simp

text \<open>
  C7. Text \<open>AAA\<close>, pattern \<open>A\<close>, threshold 0. In row 3 the band starts at column 3, and the
  loop that writes the sentinel left of the band runs over columns 1 and 2 of a row that
  has only the columns 0 and 1: the call raises \<open>IndexError\<close> instead of returning a list
  of offsets.
\<close>

theorem diagonal_raises_index_error:
  "levenshtein_search_diagonal ''AAA'' ''A'' 0 = Inl IndexError"
  by code_simp

text \<open>
  C9 as stated fails: with threshold \<open>-1\<close> the three strategies return a list; none of
  them rejects the call.
\<close>

theorem negative_distance_returns:
  "levenshtein_search ''A'' ''A'' (- 1) = Inr []
   \<and> levenshtein_search_optimized ''A'' ''A'' (- 1) = Inr []
   \<and> levenshtein_search_diagonal ''A'' ''A'' (- 1) = Inr []"
  by code_simp

section \<open>The recursive edit distance is a metric\<close>

lemma lev_Nil2 [simp]: "lev xs [] = length xs"
  by (cases xs) simp_all

lemma lev_refl [simp]: "lev xs xs = 0"
  by (induction xs) simp_all

lemma lev_zero_iff: "lev xs ys = 0 \<longleftrightarrow> xs = ys"
  by (induction xs ys rule: lev.induct) (auto simp: min_def)

lemma lev_sym: "lev xs ys = lev ys xs"
  by (induction xs ys rule: lev.induct) (auto simp: min_def)

lemma lev_drop_left: "lev (x # xs) ys \<le> lev xs ys + 1"
  by (cases ys) simp_all

lemma lev_drop_right: "lev xs (y # ys) \<le> lev xs ys + 1"
  by (cases xs) simp_all

lemma lev_drop_both: "lev (x # xs) (y # ys) \<le> lev xs ys + (if x = y then 0 else 1)"
  by simp

lemma length_le_lev: "length ys \<le> length xs + lev xs ys"
  by (induction xs ys rule: lev.induct) (auto simp: min_def)

lemma lev_le_length: "lev xs ys \<le> length xs + length ys"
  by (induction xs ys rule: lev.induct) (auto simp: min_def)

lemma lev_triangle: "lev a c \<le> lev a b + lev b c"
proof (induction "length a + length b + length c" arbitrary: a b c rule: less_induct)
  case less
  show ?case
  proof (cases a)
    case Nil
    then show ?thesis using length_le_lev[of c b] by simp
  next
    case a: (Cons x a')
    show ?thesis
    proof (cases c)
      case Nil
      then show ?thesis using length_le_lev[of a b] by (simp add: lev_sym[of a b])
    next
      case c: (Cons z c')
      show ?thesis
      proof (cases b)
        case Nil
        then show ?thesis using lev_le_length[of a c] by simp
      next
        case b: (Cons y b')
        have ab: "lev a b = lev a' b + 1 \<or> lev a b = lev a b' + 1 \<or> lev a b = lev a' b' + (if x = y then 0 else 1)"
          unfolding a b by (simp add: min_def)
        have bc: "lev b c = lev b' c + 1 \<or> lev b c = lev b c' + 1 \<or> lev b c = lev b' c' + (if y = z then 0 else 1)"
          unfolding b c by (simp add: min_def)
        have ih1: "lev a' c \<le> lev a' b + lev b c" by (rule less) (simp add: a)
        have ih2: "lev a c' \<le> lev a b + lev b c'" by (rule less) (simp add: c)
        have ih3: "lev a b' \<le> lev a b' + 0" by simp
        have ih4: "lev a c \<le> lev a b' + lev b' c" by (rule less) (simp add: b)
        have ih5: "lev a c' \<le> lev a b' + lev b' c'" by (rule less) (simp add: b c)
        have ih6: "lev a' c \<le> lev a' b' + lev b' c" by (rule less) (simp add: a b)
        have ih7: "lev a' c' \<le> lev a' b' + lev b' c'" by (rule less) (simp add: a b c)
        have d1: "lev a c \<le> lev a' c + 1" unfolding a by (rule lev_drop_left)
        have d2: "lev a c \<le> lev a c' + 1" unfolding c by (rule lev_drop_right)
        have d3: "lev a c \<le> lev a' c' + (if x = z then 0 else 1)" unfolding a c by (rule lev_drop_both)
        from ab bc ih1 ih2 ih4 ih5 ih6 ih7 d1 d2 d3 show ?thesis
          by (auto split: if_splits)
      qed
    qed
  qed
qed

section \<open>Loops over ranges and writes into tables\<close>

lemma for_range_rule:
  assumes "I a s"
    and "\<And>i s. a \<le> i \<Longrightarrow> i < b \<Longrightarrow> I i s \<Longrightarrow> \<exists>s'. body i s = Inr s' \<and> I (i + 1) s'"
  shows "\<exists>s'. for_loop (py_range a b) body s = Inr s' \<and> I (max a b) s'"
proof -
  have "a \<le> i \<Longrightarrow> I i s \<Longrightarrow> \<exists>s'. for_loop (py_range i b) body s = Inr s' \<and> I (max i b) s'" for i s
  proof (induction "nat (b - i)" arbitrary: i s)
    case 0
    then show ?case by (simp add: max_def)
  next
    case (Suc k)
    then have lt: "i < b" by simp
    from assms(2)[OF Suc.prems(1) lt Suc.prems(2)] obtain s1 where s1: "body i s = Inr s1" "I (i + 1) s1"
      by blast
    have "\<exists>s'. for_loop (py_range (i + 1) b) body s1 = Inr s' \<and> I (max (i + 1) b) s'"
      using Suc.hyps(2) Suc.prems(1) s1(2) by (intro Suc.hyps(1)) auto
    then show ?case using lt s1 by (auto simp: py_range_first max_def)
  qed
  from this[of a s] assms(1) show ?thesis by simp
qed

lemma py_set_frame:
  assumes "0 \<le> j" "j < int (length xs)"
  shows "\<exists>xs'. py_set xs j v = Inr xs' \<and> length xs' = length xs
          \<and> (\<forall>l. 0 \<le> l \<and> l < int (length xs) \<longrightarrow> py_get xs' l = (if l = j then Inr v else py_get xs l))"
  using assms by (auto simp: py_set_def py_get_def nat_eq_iff)

lemma set2_frame:
  assumes "shape n m dp" "0 \<le> i" "i \<le> n" "0 \<le> j" "j \<le> m"
  shows "\<exists>dp'. set2 dp i j v = Inr dp' \<and> shape n m dp'
          \<and> (\<forall>k l. 0 \<le> k \<and> k \<le> n \<and> 0 \<le> l \<and> l \<le> m \<longrightarrow>
                get2 dp' k l = (if k = i \<and> l = j then Inr v else get2 dp k l))"
proof -
  from assms have len: "length dp = nat (n + 1)" and rows: "\<And>k. k < length dp \<Longrightarrow> length (dp ! k) = nat (m + 1)"
    by (auto simp: shape_def)
  from assms len have i: "nat i < length dp" by simp
  then have lrow: "length (dp ! nat i) = nat (m + 1)" by (rule rows)
  let ?dp' = "dp[nat i := (dp ! nat i)[nat j := v]]"
  have 1: "set2 dp i j v = Inr ?dp'"
    using assms len lrow by (simp add: set2_def py_get_in py_set_in)
  have 2: "shape n m ?dp'"
    using assms lrow by (auto simp: shape_def dest!: set_update_subset_insert[THEN subsetD])
  have 3: "get2 ?dp' k l = (if k = i \<and> l = j then Inr v else get2 dp k l)"
    if "0 \<le> k" "k \<le> n" "0 \<le> l" "l \<le> m" for k l
    using that assms len lrow rows[of "nat k"]
    by (auto simp: get2_def py_get_in nth_list_update nat_eq_iff)
  from 1 2 3 show ?thesis by blast
qed

section \<open>\<open>levenshtein_distance\<close> computes the edit distance\<close>

lemma cell_row0: "0 \<le> j \<Longrightarrow> j \<le> int (length b) \<Longrightarrow> cell a b 0 j = j"
  by (simp add: cell_def)

lemma cell_col0: "0 \<le> i \<Longrightarrow> i \<le> int (length a) \<Longrightarrow> cell a b i 0 = i"
  by (simp add: cell_def)

lemma rev_take_step: "0 < i \<Longrightarrow> i \<le> int (length a) \<Longrightarrow>
    rev (take (nat i) a) = a ! nat (i - 1) # rev (take (nat (i - 1)) a)"
proof -
  assume "0 < i" "i \<le> int (length a)"
  then have "nat i = Suc (nat (i - 1))" "nat (i - 1) < length a" by auto
  then show ?thesis by (simp add: take_Suc_conv_app_nth)
qed

lemma cell_rec:
  assumes "0 < i" "i \<le> int (length a)" "0 < j" "j \<le> int (length b)"
  shows "cell a b i j = min (cell a b (i - 1) j + 1) (min (cell a b i (j - 1) + 1)
           (cell a b (i - 1) (j - 1) + (if a ! nat (i - 1) = b ! nat (j - 1) then 0 else 1)))"
proof -
  define x xs where "x = a ! nat (i - 1)" and "xs = rev (take (nat (i - 1)) a)"
  define y ys where "y = b ! nat (j - 1)" and "ys = rev (take (nat (j - 1)) b)"
  have A: "rev (take (nat i) a) = x # xs"
    unfolding x_def xs_def using assms(1,2) by (rule rev_take_step)
  have B: "rev (take (nat j) b) = y # ys"
    unfolding y_def ys_def using assms(3,4) by (rule rev_take_step)
  have "int (lev (x # xs) (y # ys)) =
      min (int (lev xs (y # ys)) + 1) (min (int (lev (x # xs) ys) + 1) (int (lev xs ys) + (if x = y then 0 else 1)))"
    by (simp add: min_def)
  then show ?thesis
    unfolding cell_def A B by (simp only: x_def[symmetric] y_def[symmetric] xs_def[symmetric] ys_def[symmetric])
qed

lemma dp_cell_step:
  assumes f: "filled a b dp i j" and i: "0 < i" "i \<le> int (length a)" and j: "0 < j" "j \<le> int (length b)"
  shows "\<exists>dp'. dp_cell a b i j dp = Inr dp' \<and> filled a b dp' i (j + 1)"
proof -
  from f have sh: "shape (int (length a)) (int (length b)) dp"
    and g: "\<And>k l. 0 \<le> k \<Longrightarrow> k \<le> int (length a) \<Longrightarrow> 0 \<le> l \<Longrightarrow> l \<le> int (length b) \<Longrightarrow>
            (k = 0 \<or> l = 0 \<or> k < i \<or> (k = i \<and> l < j)) \<Longrightarrow> get2 dp k l = Inr (cell a b k l)"
    by (auto simp: filled_def)
  have r1: "get2 dp (i - 1) j = Inr (cell a b (i - 1) j)" using i j by (intro g) auto
  have r2: "get2 dp i (j - 1) = Inr (cell a b i (j - 1))" using i j by (intro g) auto
  have r3: "get2 dp (i - 1) (j - 1) = Inr (cell a b (i - 1) (j - 1))" using i j by (intro g) auto
  have ca: "py_get a (i - 1) = Inr (a ! nat (i - 1))" using i by (intro py_get_in) auto
  have cb: "py_get b (j - 1) = Inr (b ! nat (j - 1))" using j by (intro py_get_in) auto
  have eq: "dp_cell a b i j dp = set2 dp i j (cell a b i j)"
    by (simp add: dp_cell_def r1 r2 r3 ca cb cell_rec[OF i j] Let_def)
  from set2_frame[OF sh, of i j "cell a b i j"] i j obtain dp' where
    dp': "set2 dp i j (cell a b i j) = Inr dp'" "shape (int (length a)) (int (length b)) dp'"
      "\<And>k l. 0 \<le> k \<Longrightarrow> k \<le> int (length a) \<Longrightarrow> 0 \<le> l \<Longrightarrow> l \<le> int (length b) \<Longrightarrow>
                get2 dp' k l = (if k = i \<and> l = j then Inr (cell a b i j) else get2 dp k l)"
    by auto
  have "filled a b dp' i (j + 1)"
    unfolding filled_def using dp'(2) by (auto simp: dp'(3) g)
  with eq dp'(1) show ?thesis by simp
qed

lemma dp_row_step:
  assumes f: "filled a b dp i 1" and i: "0 < i" "i \<le> int (length a)"
  shows "\<exists>dp'. for_loop (py_range 1 (int (length b) + 1)) (\<lambda>j dp. dp_cell a b i j dp) dp = Inr dp'
               \<and> filled a b dp' (i + 1) 1"
proof -
  have "\<exists>dp'. for_loop (py_range 1 (int (length b) + 1)) (\<lambda>j dp. dp_cell a b i j dp) dp = Inr dp'
               \<and> filled a b dp' i (max 1 (int (length b) + 1))"
    by (rule for_range_rule[where I = "\<lambda>j dp. filled a b dp i j"]) (use f i in \<open>auto intro: dp_cell_step\<close>)
  then obtain dp' where dp': "for_loop (py_range 1 (int (length b) + 1)) (\<lambda>j dp. dp_cell a b i j dp) dp = Inr dp'"
      "filled a b dp' i (int (length b) + 1)"
    by (auto simp: max_def)
  have "filled a b dp' (i + 1) 1"
    unfolding filled_def
  proof (intro conjI allI impI)
    show "shape (int (length a)) (int (length b)) dp'" using dp'(2) by (simp add: filled_def)
  next
    fix k l
    assume "0 \<le> k \<and> k \<le> int (length a) \<and> 0 \<le> l \<and> l \<le> int (length b) \<and>
       (k = 0 \<or> l = 0 \<or> k < i + 1 \<or> k = i + 1 \<and> l < 1)"
    then have "0 \<le> k \<and> k \<le> int (length a) \<and> 0 \<le> l \<and> l \<le> int (length b) \<and>
       (k = 0 \<or> l = 0 \<or> k < i \<or> k = i \<and> l < int (length b) + 1)"
      by linarith
    with dp'(2) show "get2 dp' k l = Inr (cell a b k l)"
      unfolding filled_def by blast
  qed
  with dp'(1) show ?thesis by blast
qed

lemma shape_init: "0 \<le> n \<Longrightarrow> shape n m (py_repeat (py_repeat (0::int) (m + 1)) (n + 1))"
  by (auto simp: shape_def py_repeat_def)

lemma levenshtein_distance_lev:
  "levenshtein_distance a b = Inr (int (lev (rev a) (rev b)))"
proof (cases "a = [] \<or> b = []")
  case True
  then show ?thesis by (auto simp: levenshtein_distance_def Let_def)
next
  case False
  let ?n = "int (length a)" and ?m = "int (length b)"
  from False have pos: "0 < ?n" "0 < ?m" by auto
  let ?dp0 = "py_repeat (py_repeat (0::int) (?m + 1)) (?n + 1)"
  have "\<exists>dp. for_loop (py_range 0 (?n + 1)) (\<lambda>i dp. set2 dp i 0 i) ?dp0 = Inr dp
        \<and> (shape ?n ?m dp \<and> (\<forall>k. 0 \<le> k \<and> k < max 0 (?n + 1) \<longrightarrow> get2 dp k 0 = Inr k))"
  proof (rule for_range_rule[where I = "\<lambda>i dp. shape ?n ?m dp \<and> (\<forall>k. 0 \<le> k \<and> k < i \<longrightarrow> get2 dp k 0 = Inr k)"],
      goal_cases)
    case 1
    then show ?case by (auto simp: shape_init)
  next
    case (2 i s)
    then have sh: "shape ?n ?m s" by simp
    from set2_frame[OF sh, of i 0 i] 2 obtain dp' where "set2 s i 0 i = Inr dp'" "shape ?n ?m dp'"
      "\<And>k l. 0 \<le> k \<Longrightarrow> k \<le> ?n \<Longrightarrow> 0 \<le> l \<Longrightarrow> l \<le> ?m \<Longrightarrow>
                get2 dp' k l = (if k = i \<and> l = 0 then Inr i else get2 s k l)"
      by auto
    with 2 show ?case by auto
  qed
  then obtain dp1 where dp1: "for_loop (py_range 0 (?n + 1)) (\<lambda>i dp. set2 dp i 0 i) ?dp0 = Inr dp1"
    "shape ?n ?m dp1" "\<And>k. 0 \<le> k \<Longrightarrow> k \<le> ?n \<Longrightarrow> get2 dp1 k 0 = Inr k"
    by (auto simp: max_def)
  have "\<exists>dp. for_loop (py_range 0 (?m + 1)) (\<lambda>j dp. set2 dp 0 j j) dp1 = Inr dp
        \<and> (shape ?n ?m dp \<and> (\<forall>k. 0 \<le> k \<and> k \<le> ?n \<longrightarrow> get2 dp k 0 = Inr k)
              \<and> (\<forall>l. 0 \<le> l \<and> l < max 0 (?m + 1) \<longrightarrow> get2 dp 0 l = Inr l))"
  proof (rule for_range_rule[where I = "\<lambda>j dp. shape ?n ?m dp \<and> (\<forall>k. 0 \<le> k \<and> k \<le> ?n \<longrightarrow> get2 dp k 0 = Inr k)
              \<and> (\<forall>l. 0 \<le> l \<and> l < j \<longrightarrow> get2 dp 0 l = Inr l)"], goal_cases)
    case 1
    then show ?case using dp1 by auto
  next
    case (2 j s)
    then have sh: "shape ?n ?m s" by simp
    from set2_frame[OF sh, of 0 j j] 2 obtain dp' where "set2 s 0 j j = Inr dp'" "shape ?n ?m dp'"
      "\<And>k l. 0 \<le> k \<Longrightarrow> k \<le> ?n \<Longrightarrow> 0 \<le> l \<Longrightarrow> l \<le> ?m \<Longrightarrow>
                get2 dp' k l = (if k = 0 \<and> l = j then Inr j else get2 s k l)"
      by auto
    with 2 show ?case by auto
  qed
  then obtain dp2 where dp2: "for_loop (py_range 0 (?m + 1)) (\<lambda>j dp. set2 dp 0 j j) dp1 = Inr dp2"
    "shape ?n ?m dp2" "\<And>k. 0 \<le> k \<Longrightarrow> k \<le> ?n \<Longrightarrow> get2 dp2 k 0 = Inr k"
    "\<And>l. 0 \<le> l \<Longrightarrow> l \<le> ?m \<Longrightarrow> get2 dp2 0 l = Inr l"
    by (auto simp: max_def)
  have f2: "filled a b dp2 1 1"
    unfolding filled_def
  proof (intro conjI allI impI)
    show "shape ?n ?m dp2" by (rule dp2(2))
  next
    fix k l
    assume "0 \<le> k \<and> k \<le> ?n \<and> 0 \<le> l \<and> l \<le> ?m \<and> (k = 0 \<or> l = 0 \<or> k < 1 \<or> k = 1 \<and> l < 1)"
    then have *: "0 \<le> k" "k \<le> ?n" "0 \<le> l" "l \<le> ?m" "k = 0 \<or> l = 0" by auto
    from *(5) show "get2 dp2 k l = Inr (cell a b k l)"
    proof
      assume "k = 0"
      with * show ?thesis by (simp add: dp2(4) cell_row0)
    next
      assume "l = 0"
      with * show ?thesis by (simp add: dp2(3) cell_col0)
    qed
  qed
  have "\<exists>dp. for_loop (py_range 1 (?n + 1))
                 (\<lambda>i dp. for_loop (py_range 1 (?m + 1)) (\<lambda>j dp. dp_cell a b i j dp) dp) dp2 = Inr dp
        \<and> filled a b dp (max 1 (?n + 1)) 1"
    by (rule for_range_rule[where I = "\<lambda>i dp. filled a b dp i 1"]) (use f2 in \<open>auto intro: dp_row_step\<close>)
  then obtain dp3 where dp3: "for_loop (py_range 1 (?n + 1))
                 (\<lambda>i dp. for_loop (py_range 1 (?m + 1)) (\<lambda>j dp. dp_cell a b i j dp) dp) dp2 = Inr dp3"
    "filled a b dp3 (?n + 1) 1"
    by (auto simp: max_def)
  from dp3(2) have "get2 dp3 ?n ?m = Inr (cell a b ?n ?m)"
    unfolding filled_def by auto
  then have "get2 dp3 ?n ?m = Inr (int (lev (rev a) (rev b)))"
    by (simp add: cell_def)
  with False dp1(1) dp2(1) dp3(1) show ?thesis
    by (simp add: levenshtein_distance_def Let_def)
qed

section \<open>The rolling rows compute the edit distance\<close>

lemma py_get_range0: "0 \<le> l \<Longrightarrow> l \<le> m \<Longrightarrow> py_get (py_range 0 (m + 1)) l = Inr l"
  by (simp add: py_get_def py_range_def)

lemma length_py_range0: "0 \<le> m \<Longrightarrow> length (py_range 0 (m + 1)) = nat (m + 1)"
  by (simp add: py_range_def)

lemma roll_cell_step:
  assumes prev: "row_ok s p (i - 1) (int (length p) + 1) prev"
    and cur: "row_ok s p i j cur"
    and i: "0 < i" "i \<le> int (length s)" and j: "0 < j" "j \<le> int (length p)"
  shows "\<exists>cur'. roll_cell s p prev i j cur = Inr cur' \<and> row_ok s p i (j + 1) cur'"
proof -
  from prev have p1: "py_get prev j = Inr (cell s p (i - 1) j)"
    and p2: "py_get prev (j - 1) = Inr (cell s p (i - 1) (j - 1))"
    using j by (auto simp: row_ok_def)
  from cur have c1: "py_get cur (j - 1) = Inr (cell s p i (j - 1))" and len: "length cur = Suc (length p)"
    using j by (auto simp: row_ok_def)
  have cs: "py_get s (i - 1) = Inr (s ! nat (i - 1))" using i by (intro py_get_in) auto
  have cp: "py_get p (j - 1) = Inr (p ! nat (j - 1))" using j by (intro py_get_in) auto
  have eq: "roll_cell s p prev i j cur = py_set cur j (cell s p i j)"
    by (simp add: roll_cell_def p1 p2 c1 cs cp cell_rec[OF i j] Let_def)
  from py_set_frame[of j cur "cell s p i j"] j len obtain cur' where
    cur': "py_set cur j (cell s p i j) = Inr cur'" "length cur' = length cur"
      "\<And>l. 0 \<le> l \<Longrightarrow> l < int (length cur) \<Longrightarrow> py_get cur' l = (if l = j then Inr (cell s p i j) else py_get cur l)"
    by auto
  have "row_ok s p i (j + 1) cur'"
    unfolding row_ok_def
  proof (intro conjI allI impI)
    show "length cur' = Suc (length p)" using cur'(2) len by simp
  next
    fix l assume l: "0 \<le> l \<and> l < j + 1"
    then have "py_get cur' l = (if l = j then Inr (cell s p i j) else py_get cur l)"
      using j len by (intro cur'(3)) auto
    moreover have "l \<noteq> j \<Longrightarrow> py_get cur l = Inr (cell s p i l)"
      using cur l by (auto simp: row_ok_def)
    ultimately show "py_get cur' l = Inr (cell s p i l)" by auto
  qed
  with eq cur'(1) show ?thesis by simp
qed

lemma roll_row_step:
  assumes prev: "row_ok s p (i - 1) (int (length p) + 1) prev"
    and len: "length cur = Suc (length p)"
    and i: "0 < i" "i \<le> int (length s)"
  shows "\<exists>cur'. roll_row s p (int (length p)) i (prev, cur) = Inr (cur', prev)
            \<and> row_ok s p i (int (length p) + 1) cur'"
proof -
  let ?m = "int (length p)"
  from py_set_frame[of 0 cur i] len obtain cur0 where
    cur0: "py_set cur 0 i = Inr cur0" "length cur0 = length cur"
      "\<And>l. 0 \<le> l \<Longrightarrow> l < int (length cur) \<Longrightarrow> py_get cur0 l = (if l = 0 then Inr i else py_get cur l)"
    by auto
  have r0: "row_ok s p i 1 cur0"
    unfolding row_ok_def
  proof (intro conjI allI impI)
    show "length cur0 = Suc (length p)" using cur0(2) len by simp
  next
    fix l :: int assume "0 \<le> l \<and> l < 1"
    then have "l = 0" by simp
    then show "py_get cur0 l = Inr (cell s p i l)"
      using cur0(3)[of 0] len i by (simp add: cell_col0)
  qed
  have "\<exists>cur'. for_loop (py_range 1 (?m + 1)) (\<lambda>j cur. roll_cell s p prev i j cur) cur0 = Inr cur'
            \<and> row_ok s p i (max 1 (?m + 1)) cur'"
    by (rule for_range_rule[where I = "\<lambda>j cur. row_ok s p i j cur"])
       (use r0 prev i in \<open>auto intro: roll_cell_step\<close>)
  then obtain cur' where "for_loop (py_range 1 (?m + 1)) (\<lambda>j cur. roll_cell s p prev i j cur) cur0 = Inr cur'"
    "row_ok s p i (?m + 1) cur'"
    by (auto simp: max_def)
  with cur0(1) show ?thesis by (simp add: roll_row_def)
qed

lemma roll_window_lev:
  assumes "length s = length p"
  shows "roll_window s p (int (length p)) = Inr (int (lev (rev s) (rev p)))"
proof -
  let ?m = "int (length p)"
  let ?I = "\<lambda>i pc. row_ok s p (i - 1) (?m + 1) (fst pc) \<and> length (snd pc) = Suc (length p)"
  have init: "?I 1 (py_range 0 (?m + 1), py_repeat 0 (?m + 1))"
    by (auto simp: row_ok_def py_get_range0 length_py_range0 cell_row0 py_repeat_def nat_add_distrib)
  have "\<exists>pc. for_loop (py_range 1 (?m + 1)) (\<lambda>i pc. roll_row s p ?m i pc)
                (py_range 0 (?m + 1), py_repeat 0 (?m + 1)) = Inr pc \<and> ?I (max 1 (?m + 1)) pc"
  proof (rule for_range_rule[where I = ?I], goal_cases)
    case 1
    show ?case by (rule init)
  next
    case (2 i pc)
    obtain prev cur where pc: "pc = (prev, cur)" by (cases pc)
    from 2 pc assms have "\<exists>cur'. roll_row s p ?m i (prev, cur) = Inr (cur', prev)
            \<and> row_ok s p i (?m + 1) cur'"
      by (intro roll_row_step) auto
    then show ?case using 2 pc by (auto simp: row_ok_def)
  qed
  then obtain pc where pc: "for_loop (py_range 1 (?m + 1)) (\<lambda>i pc. roll_row s p ?m i pc)
                (py_range 0 (?m + 1), py_repeat 0 (?m + 1)) = Inr pc" "row_ok s p ?m (?m + 1) (fst pc)"
    by (auto simp: max_def)
  from pc(2) have "py_get (fst pc) ?m = Inr (cell s p ?m ?m)"
    by (auto simp: row_ok_def)
  with pc(1) assms show ?thesis
    by (simp add: roll_window_def cell_def)
qed

section \<open>The naive and the rolling-row search\<close>

lemma bindE_assoc: "bindE (bindE r f) g = bindE r (\<lambda>x. bindE (f x) g)"
  by (cases r) simp_all

lemma set_py_range [simp]: "set (py_range a b) = {a..<b}"
  by (auto simp: py_range_def)

lemma for_loop_cong:
  "(\<And>x s. x \<in> set xs \<Longrightarrow> f x s = g x s) \<Longrightarrow> for_loop xs f s = for_loop xs g s"
  by (induction xs arbitrary: s) (auto split: sum.splits)

lemma for_loop_filter:
  "for_loop xs (\<lambda>x ms. Inr (if Q x then ms @ [x] else ms)) acc = Inr (acc @ filter Q xs)"
  by (induction xs arbitrary: acc) auto

lemma for_loop_counting:
  assumes "\<And>x s c. x \<in> set xs \<Longrightarrow> g x (s, c) = bindE (f x s) (\<lambda>s'. Inr (s', c + k))"
  shows "for_loop xs g (s, c) = bindE (for_loop xs f s) (\<lambda>s'. Inr (s', c + k * int (length xs)))"
  using assms
proof (induction xs arbitrary: s c)
  case Nil
  then show ?case by simp
next
  case (Cons x xs)
  show ?case
  proof (cases "f x s")
    case (Inl e)
    then show ?thesis using Cons.prems[of x s c] by simp
  next
    case (Inr s1)
    then have "g x (s, c) = Inr (s1, c + k)" using Cons.prems[of x s c] by simp
    moreover have "for_loop xs g (s1, c + k) = bindE (for_loop xs f s1) (\<lambda>s'. Inr (s', c + k + k * int (length xs)))"
      by (rule Cons.IH) (simp add: Cons.prems)
    ultimately show ?thesis using Inr by (simp add: algebra_simps)
  qed
qed

lemma py_slice_window:
  assumes "0 \<le> start" "0 \<le> m" "start + m \<le> int (length xs)"
  shows "py_slice xs start (start + m) = take (nat m) (drop (nat start) xs)"
proof -
  have "py_clip (int (length xs)) start = nat start" "py_clip (int (length xs)) (start + m) = nat start + nat m"
    using assms by (auto simp: py_clip_def nat_add_distrib)
  then show ?thesis
    by (simp add: py_slice_def Let_def take_drop add.commute)
qed

lemma length_py_slice_window:
  assumes "0 \<le> start" "0 \<le> m" "start + m \<le> int (length xs)"
  shows "length (py_slice xs start (start + m)) = nat m"
  using assms by (simp add: py_slice_window)

lemma py_get_slice_window:
  assumes "0 \<le> start" "start + m \<le> int (length xs)" "0 \<le> k" "k < m"
  shows "py_get (py_slice xs start (start + m)) k = py_get xs (start + k)"
proof -
  have "py_slice xs start (start + m) = take (nat m) (drop (nat start) xs)"
    using assms by (intro py_slice_window) auto
  moreover have "nat start + nat k = nat (start + k)" using assms by (simp add: nat_add_distrib)
  ultimately show ?thesis
    using assms by (simp add: py_get_def)
qed

lemma levenshtein_search_eq:
  "levenshtein_search t p d =
     Inr (if p = [] then [0..int (length t)]
          else filter (\<lambda>start. window_dist t p start \<le> d) (py_range 0 (int (length t) - int (length p) + 1)))"
  by (simp add: levenshtein_search_def Let_def levenshtein_distance_lev for_loop_filter
      window_dist_def py_range_def)

lemma levenshtein_search_optimized_eq:
  "levenshtein_search_optimized t p d =
     Inr (if p = [] then [0..int (length t)]
          else filter (\<lambda>start. window_dist t p start \<le> d) (py_range 0 (int (length t) - int (length p) + 1)))"
proof -
  let ?n = "int (length t)" and ?m = "int (length p)"
  have "for_loop (py_range 0 (?n - ?m + 1))
          (\<lambda>start matches. bindE (roll_window (py_slice t start (start + ?m)) p ?m)
              (\<lambda>dist. Inr (if dist \<le> d then matches @ [start] else matches))) [] =
        for_loop (py_range 0 (?n - ?m + 1))
          (\<lambda>start matches. Inr (if window_dist t p start \<le> d then matches @ [start] else matches)) []"
  proof (rule for_loop_cong)
    fix start :: int and s :: "int list"
    assume "start \<in> set (py_range 0 (?n - ?m + 1))"
    then have "length (py_slice t start (start + ?m)) = length p"
      by (simp add: length_py_slice_window)
    then show "bindE (roll_window (py_slice t start (start + ?m)) p ?m)
              (\<lambda>dist. Inr (if dist \<le> d then s @ [start] else s)) =
            Inr (if window_dist t p start \<le> d then s @ [start] else s)"
      by (simp add: roll_window_lev window_dist_def)
  qed
  then show ?thesis
    by (simp add: levenshtein_search_optimized_def Let_def for_loop_filter py_range_def)
qed

section \<open>The instrumented rolling-row search\<close>

lemma count_cell_roll:
  assumes "py_get t (start + i - 1) = py_get s (i - 1)"
  shows "count_cell t p start prev i j (cur, c) =
         bindE (roll_cell s p prev i j cur) (\<lambda>cur'. Inr (cur', c + 1))"
  using assms
  by (cases "py_get s (i - 1)"; cases "py_get p (j - 1)"; cases "py_get prev j";
      cases "py_get cur (j - 1)"; cases "py_get prev (j - 1)")
     (simp_all add: count_cell_def roll_cell_def Let_def)

lemma count_row_roll:
  assumes "py_get t (start + i - 1) = py_get s (i - 1)"
  shows "count_row t p start m i ((prev, cur), c) =
         bindE (roll_row s p m i (prev, cur)) (\<lambda>pc. Inr (pc, c + int (length (py_range 1 (m + 1)))))"
proof (cases "py_set cur 0 i")
  case (Inl e)
  then show ?thesis by (simp add: count_row_def roll_row_def)
next
  case (Inr cur0)
  have "for_loop (py_range 1 (m + 1)) (\<lambda>j cc. count_cell t p start prev i j cc) (cur0, c) =
        bindE (for_loop (py_range 1 (m + 1)) (\<lambda>j cur. roll_cell s p prev i j cur) cur0)
          (\<lambda>cur'. Inr (cur', c + 1 * int (length (py_range 1 (m + 1)))))"
    by (rule for_loop_counting) (simp add: count_cell_roll[OF assms])
  then show ?thesis
    using Inr
    by (cases "for_loop (py_range 1 (m + 1)) (\<lambda>j cur. roll_cell s p prev i j cur) cur0")
       (simp_all add: count_row_def roll_row_def)
qed

lemma count_window_roll:
  assumes "\<And>i. 1 \<le> i \<Longrightarrow> i \<le> m \<Longrightarrow> py_get t (start + i - 1) = py_get s (i - 1)"
  shows "count_window t p start m c =
         bindE (roll_window s p m) (\<lambda>v. Inr (v, c + int (length (py_range 1 (m + 1))) * int (length (py_range 1 (m + 1)))))"
proof -
  let ?k = "int (length (py_range 1 (m + 1)))"
  have "for_loop (py_range 1 (m + 1)) (\<lambda>i pcc. count_row t p start m i pcc)
          ((py_range 0 (m + 1), py_repeat 0 (m + 1)), c) =
        bindE (for_loop (py_range 1 (m + 1)) (\<lambda>i pc. roll_row s p m i pc) (py_range 0 (m + 1), py_repeat 0 (m + 1)))
          (\<lambda>pc. Inr (pc, c + ?k * ?k))"
  proof (rule for_loop_counting)
    fix i :: int and pc :: "int list \<times> int list" and c :: int
    assume "i \<in> set (py_range 1 (m + 1))"
    then have "py_get t (start + i - 1) = py_get s (i - 1)" by (intro assms) auto
    from count_row_roll[OF this, of p m "fst pc" "snd pc" c]
    show "count_row t p start m i (pc, c) = bindE (roll_row s p m i pc) (\<lambda>s'. Inr (s', c + ?k))"
      by simp
  qed
  then show ?thesis
    by (cases "for_loop (py_range 1 (m + 1)) (\<lambda>i pc. roll_row s p m i pc) (py_range 0 (m + 1), py_repeat 0 (m + 1))")
       (simp_all add: count_window_def roll_window_def)
qed

lemma count_comparisons_levenshtein_eq:
  "count_comparisons_levenshtein t p d =
     bindE (levenshtein_search_optimized t p d)
       (\<lambda>ms. Inr (ms, if p = [] \<or> length t < length p then 0
                      else int (length p) * int (length p) * (int (length t) - int (length p) + 1)))"
proof (cases "p = [] \<or> length t < length p")
  case True
  then show ?thesis
    by (auto simp: count_comparisons_levenshtein_def levenshtein_search_optimized_def Let_def)
next
  case False
  let ?n = "int (length t)" and ?m = "int (length p)"
  let ?k = "int (length (py_range 1 (?m + 1)))"
  have k: "?k = ?m" by (simp add: py_range_def)
  have "for_loop (py_range 0 (?n - ?m + 1))
          (\<lambda>start mc. bindE (count_window t p start ?m (snd mc))
              (\<lambda>vc. Inr (if fst vc \<le> d then fst mc @ [start] else fst mc, snd vc))) ([], 0) =
        bindE (for_loop (py_range 0 (?n - ?m + 1))
          (\<lambda>start matches. bindE (roll_window (py_slice t start (start + ?m)) p ?m)
              (\<lambda>dist. Inr (if dist \<le> d then matches @ [start] else matches))) [])
          (\<lambda>ms. Inr (ms, 0 + ?k * ?k * int (length (py_range 0 (?n - ?m + 1)))))"
  proof (rule for_loop_counting)
    fix start :: int and ms :: "int list" and c :: int
    assume "start \<in> set (py_range 0 (?n - ?m + 1))"
    then have st: "0 \<le> start" "start + ?m \<le> ?n" by auto
    have "count_window t p start ?m c =
         bindE (roll_window (py_slice t start (start + ?m)) p ?m) (\<lambda>v. Inr (v, c + ?k * ?k))"
    proof (rule count_window_roll)
      fix i :: int assume "1 \<le> i" "i \<le> ?m"
      with py_get_slice_window[of start ?m t "i - 1"] st
      show "py_get t (start + i - 1) = py_get (py_slice t start (start + ?m)) (i - 1)"
        by (simp add: algebra_simps)
    qed
    then show "bindE (count_window t p start ?m (snd (ms, c)))
              (\<lambda>vc. Inr (if fst vc \<le> d then fst (ms, c) @ [start] else fst (ms, c), snd vc)) =
            bindE (bindE (roll_window (py_slice t start (start + ?m)) p ?m)
              (\<lambda>dist. Inr (if dist \<le> d then ms @ [start] else ms))) (\<lambda>s'. Inr (s', c + ?k * ?k))"
      by (cases "roll_window (py_slice t start (start + ?m)) p ?m") simp_all
  qed
  moreover have "int (length (py_range 0 (?n - ?m + 1))) = ?n - ?m + 1"
    using False by (simp add: py_range_def)
  ultimately show ?thesis
    using False k
    by (simp add: count_comparisons_levenshtein_def levenshtein_search_optimized_def Let_def)
qed

section \<open>Claims about the edit distance and the window strategies\<close>

text \<open>
  C5. \<open>levenshtein_distance\<close> is a metric on strings: the distance of a string to itself
  is 0, the distance is 0 only for equal strings, it is symmetric, and it satisfies the
  triangle inequality. (It never raises.)
\<close>

theorem levenshtein_distance_metric:
  "levenshtein_distance x x = Inr 0
   \<and> ((levenshtein_distance a b = Inr 0) = (a = b))
   \<and> levenshtein_distance a b = levenshtein_distance b a
   \<and> (\<exists>dab dbc dac. levenshtein_distance a b = Inr dab \<and> levenshtein_distance b c = Inr dbc
         \<and> levenshtein_distance a c = Inr dac \<and> dac \<le> dab + dbc)"
proof -
  have "lev (rev a) (rev c) \<le> lev (rev a) (rev b) + lev (rev b) (rev c)"
    by (rule lev_triangle)
  then have tri: "int (lev (rev a) (rev c)) \<le> int (lev (rev a) (rev b)) + int (lev (rev b) (rev c))"
    by linarith
  have sym: "levenshtein_distance a b = levenshtein_distance b a"
    unfolding levenshtein_distance_lev by (simp add: lev_sym[of "rev a" "rev b"])
  have zero: "(levenshtein_distance a b = Inr 0) = (a = b)"
    by (simp add: levenshtein_distance_lev lev_zero_iff)
  have refl: "levenshtein_distance x x = Inr 0"
    by (simp add: levenshtein_distance_lev)
  from tri have "\<exists>dab dbc dac. levenshtein_distance a b = Inr dab \<and> levenshtein_distance b c = Inr dbc
         \<and> levenshtein_distance a c = Inr dac \<and> dac \<le> dab + dbc"
    by (simp add: levenshtein_distance_lev)
  with refl zero sym show ?thesis by blast
qed

text \<open>
  C2. For every text, pattern and threshold the naive search and the rolling-row search
  both return, and return the same list of offsets.
\<close>

theorem naive_equals_rolling:
  "\<exists>ms. levenshtein_search t p d = Inr ms \<and> levenshtein_search_optimized t p d = Inr ms"
  by (simp add: levenshtein_search_eq levenshtein_search_optimized_eq)

text \<open>
  C9, amended. No strategy validates the threshold. With a negative threshold the naive
  and the rolling-row search return a list: the offsets \<open>0 .. len(text)\<close> for the empty
  pattern and the empty list otherwise; the banded search returns the same whenever the
  pattern is empty or longer than the text.
\<close>

theorem negative_distance_not_validated:
  assumes "d < 0"
  shows "levenshtein_search t p d = Inr (if p = [] then [0..int (length t)] else [])
   \<and> levenshtein_search_optimized t p d = Inr (if p = [] then [0..int (length t)] else [])
   \<and> (p = [] \<or> length t < length p \<longrightarrow>
        levenshtein_search_diagonal t p d = Inr (if p = [] then [0..int (length t)] else []))"
proof -
  have "filter (\<lambda>start. window_dist t p start \<le> d) xs = []" for xs
    using assms by (induction xs) (auto simp: window_dist_def)
  then show ?thesis
    by (auto simp: levenshtein_search_eq levenshtein_search_optimized_eq
        levenshtein_search_diagonal_def py_range_def)
qed

theorem negative_distance_not_validated_witness:
  "(- 1 :: int) < 0 \<and> (''AB'' = [] \<or> length ''A'' < length ''AB'')
   \<and> levenshtein_search ''A'' ''AB'' (- 1) = Inr []
   \<and> levenshtein_search_optimized ''A'' ''AB'' (- 1) = Inr []
   \<and> levenshtein_search_diagonal ''A'' ''AB'' (- 1) = Inr []"
  using negative_distance_not_validated [of "- 1" "''A''" "''AB''"] by simp

section \<open>While loops, prefix matches and borders\<close>

lemma while_loop_rule:
  assumes "I s"
    and "\<And>s. I s \<Longrightarrow> \<exists>b. cond s = Inr b"
    and "\<And>s. I s \<Longrightarrow> cond s = Inr True \<Longrightarrow> \<exists>s'. body s = Some (Inr s') \<and> I s' \<and> f s' < (f s :: nat)"
  shows "\<exists>s'. while_loop cond body s = Some (Inr s') \<and> I s' \<and> cond s' = Inr False"
  using assms(1)
proof (induction "f s" arbitrary: s rule: less_induct)
  case less
  from assms(2)[OF less.prems] obtain b where b: "cond s = Inr b" by blast
  show ?case
  proof (cases b)
    case True
    with assms(3)[OF less.prems] b obtain s' where s': "body s = Some (Inr s')" "I s'" "f s' < f s"
      by auto
    from less.hyps[OF s'(3) s'(2)] obtain u where "while_loop cond body s' = Some (Inr u)" "I u" "cond u = Inr False"
      by blast
    then show ?thesis using b True s' by (subst while_loop.simps) auto
  next
    case False
    then show ?thesis using b less.prems by (subst while_loop.simps) auto
  qed
qed

lemma occurs_iff: "occurs t p s \<longleftrightarrow> pmatch t s p (length p)"
  by (auto simp: occurs_def pmatch_def list_eq_iff_nth_eq)

lemma pmatch_shorter: "pmatch t s p l \<Longrightarrow> l' \<le> l \<Longrightarrow> pmatch t s p l'"
  by (auto simp: pmatch_def)

lemma pmatch_Suc: "pmatch t s p l \<Longrightarrow> s + l < length t \<Longrightarrow> l < length p \<Longrightarrow> t ! (s + l) = p ! l
    \<Longrightarrow> pmatch t s p (Suc l)"
  by (auto simp: pmatch_def less_Suc_eq)

lemma pmatch_0 [simp]: "pmatch t s p 0 \<longleftrightarrow> s \<le> length t"
  by (simp add: pmatch_def)

lemma pmatchD: "pmatch t s p l \<Longrightarrow> x < l \<Longrightarrow> t ! (s + x) = p ! x"
  by (simp add: pmatch_def)

lemma pmatch_border:
  assumes "pmatch t a p j" "pmatch t s p l" "s + l = a + j" "l < j"
  shows "border p j l"
proof -
  have "p ! (j - l + x) = p ! x" if "x < l" for x
  proof -
    define y where "y = j - l + x"
    have y: "y < j" "a + y = s + x" using assms that by (auto simp: y_def)
    have "t ! (a + y) = p ! y" using assms(1) y(1) by (rule pmatchD)
    moreover have "t ! (s + x) = p ! x" using assms(2) that by (rule pmatchD)
    ultimately have "p ! y = p ! x" using y(2) by simp
    then show ?thesis by (simp add: y_def)
  qed
  moreover have "j \<le> length p" "l \<le> length p" using assms by (auto simp: pmatch_def)
  ultimately show ?thesis using assms(4) unfolding border_def pmatch_def by auto
qed

lemma border_pmatch:
  assumes "pmatch t a p j" "border p j l"
  shows "pmatch t (a + j - l) p l"
proof -
  from assms(2) have lj: "l < j" and bm: "pmatch p (j - l) p l" by (auto simp: border_def)
  have "t ! (a + j - l + x) = p ! x" if "x < l" for x
  proof -
    define y where "y = j - l + x"
    have y: "y < j" "a + y = a + j - l + x" using lj that by (auto simp: y_def)
    have "t ! (a + y) = p ! y" using assms(1) y(1) by (rule pmatchD)
    moreover have "p ! y = p ! x" unfolding y_def using bm that by (rule pmatchD)
    ultimately show ?thesis using y(2) by simp
  qed
  moreover have "a + j \<le> length t" "l \<le> length p" using assms(1) bm by (auto simp: pmatch_def)
  ultimately show ?thesis using lj unfolding pmatch_def by auto
qed

lemma border_zero: "0 < k \<Longrightarrow> k \<le> length p \<Longrightarrow> border p k 0"
  by (simp add: border_def)

lemma border_trans: "border p k b \<Longrightarrow> border p b c \<Longrightarrow> border p k c"
  using border_pmatch[of p "k - b" p b c] by (auto simp: border_def)

lemma border_of_border: "border p k b \<Longrightarrow> border p k c \<Longrightarrow> c < b \<Longrightarrow> border p b c"
  using pmatch_border[of p "k - b" p b "k - c" c] by (auto simp: border_def)

lemma border_Suc:
  assumes "k < length p"
  shows "border p (Suc k) (Suc b) \<longleftrightarrow> border p k b \<and> p ! b = p ! k"
proof
  assume h: "border p (Suc k) (Suc b)"
  then have bk: "b < k" and pm: "pmatch p (Suc k - Suc b) p (Suc b)"
    by (auto simp: border_def)
  from pm have pm': "pmatch p (k - b) p (Suc b)" by simp
  from pmatchD[OF pm', of b] bk have "p ! b = p ! k" by simp
  moreover have "border p k b"
    using pmatch_shorter[OF pm', of b] bk assms by (simp add: border_def)
  ultimately show "border p k b \<and> p ! b = p ! k" by simp
next
  assume h: "border p k b \<and> p ! b = p ! k"
  then have "pmatch p (k - b) p (Suc b)"
    using assms by (intro pmatch_Suc) (auto simp: border_def)
  with h assms show "border p (Suc k) (Suc b)"
    by (simp add: border_def)
qed

lemma lborder_unique: "lborder p k b \<Longrightarrow> lborder p k c \<Longrightarrow> b = c"
  by (auto simp: lborder_def intro: antisym)

section \<open>\<open>compute_lps_table\<close> returns the longest borders\<close>

lemma lborder_Suc_match:
  assumes "k < length p" "border p k b" "p ! b = p ! k"
    and "\<forall>c. border p k c \<and> p ! c = p ! k \<longrightarrow> c \<le> b"
  shows "lborder p (Suc k) (Suc b)"
  unfolding lborder_def
proof (intro conjI allI impI)
  show "border p (Suc k) (Suc b)" using assms by (simp add: border_Suc)
next
  fix c assume c: "border p (Suc k) c"
  show "c \<le> Suc b"
  proof (cases c)
    case 0
    then show ?thesis by simp
  next
    case (Suc c')
    with c assms(1) have "border p k c' \<and> p ! c' = p ! k" by (simp add: border_Suc)
    with assms(4) have "c' \<le> b" by blast
    with Suc show ?thesis by simp
  qed
qed

lemma lborder_Suc_zero:
  assumes "k < length p" "p ! 0 \<noteq> p ! k"
    and "\<forall>c. border p k c \<and> p ! c = p ! k \<longrightarrow> c \<le> 0"
  shows "lborder p (Suc k) 0"
  unfolding lborder_def
proof (intro conjI allI impI)
  show "border p (Suc k) 0" using assms by (simp add: border_zero)
next
  fix c assume c: "border p (Suc k) c"
  show "c \<le> 0"
  proof (cases c)
    case 0
    then show ?thesis by simp
  next
    case (Suc c')
    with c assms(1) have *: "border p k c' \<and> p ! c' = p ! k" by (simp add: border_Suc)
    with assms(3) have "c' = 0" by blast
    with * assms(2) show ?thesis by simp
  qed
qed

lemma lps_body_step:
  assumes inv: "lps_inv p (lps, j, i)" and lt: "i < int (length p)"
  shows "\<exists>s'. lps_body p (lps, j, i) = Inr s' \<and> lps_inv p s'
           \<and> 2 * nat (int (length p) - snd (snd s')) + nat (fst (snd s'))
             < 2 * nat (int (length p) - i) + nat j"
proof -
  define ni nj where "ni = nat i" and "nj = nat j"
  from inv have j0: "0 \<le> j" and ji: "j < i" and len: "length lps = length p"
    and tab: "\<And>k. k < ni \<Longrightarrow> \<exists>b. lps ! k = int b \<and> lborder p (Suc k) b"
    and bor: "border p ni nj"
    and mx: "\<forall>b. border p ni b \<and> p ! b = p ! ni \<longrightarrow> b \<le> nj"
    by (auto simp: lps_inv_def ni_def nj_def)
  have i: "i = int ni" and j: "j = int nj" and nji: "nj < ni" and nim: "ni < length p"
    using j0 ji lt by (auto simp: ni_def nj_def)
  have gi: "py_get p i = Inr (p ! ni)" unfolding i using nim by (rule py_get_nat)
  have gj: "py_get p j = Inr (p ! nj)" unfolding j using nim nji by (intro py_get_nat) simp
  show ?thesis
  proof (cases "p ! ni = p ! nj")
    case True
    have lb: "lborder p (Suc ni) (Suc nj)"
      using nim bor True mx by (intro lborder_Suc_match) auto
    have st: "py_set lps i (j + 1) = Inr (lps[ni := j + 1])"
      unfolding i using nim len by (intro py_set_nat) simp
    have "lps_inv p (lps[ni := j + 1], j + 1, i + 1)"
      unfolding lps_inv_def prod.case
    proof (intro conjI allI impI)
      fix k assume "k < nat (i + 1)"
      then have "k < ni \<or> k = ni" by (auto simp: i)
      then show "\<exists>b. lps[ni := j + 1] ! k = int b \<and> lborder p (Suc k) b"
      proof
        assume "k < ni" then show ?thesis using tab[of k] by simp
      next
        assume "k = ni" then show ?thesis using lb nim len by (auto simp: j intro!: exI[of _ "Suc nj"])
      qed
    next
      show "border p (nat (i + 1)) (nat (j + 1))"
        using lb by (simp add: i j lborder_def nat_add_distrib)
    next
      fix b assume "border p (nat (i + 1)) b \<and> p ! b = p ! nat (i + 1)"
      then have "border p (Suc ni) b" by (simp add: i nat_add_distrib)
      with lb show "b \<le> nat (j + 1)" by (auto simp: lborder_def j nat_add_distrib)
    qed (use j0 ji lt len in auto)
    then show ?thesis
      using True gi gj st lt by (auto simp: lps_body_def)
  next
    case False
    show ?thesis
    proof (cases "j = 0")
      case j00: True
      then have nj0: "nj = 0" by (simp add: nj_def)
      have lb: "lborder p (Suc ni) 0"
        using nim False mx nj0 by (intro lborder_Suc_zero) auto
      have st: "py_set lps i 0 = Inr (lps[ni := 0])"
        unfolding i using nim len by (intro py_set_nat) simp
      have "lps_inv p (lps[ni := 0], j, i + 1)"
        unfolding lps_inv_def prod.case
      proof (intro conjI allI impI)
        fix k assume "k < nat (i + 1)"
        then have "k < ni \<or> k = ni" by (auto simp: i)
        then show "\<exists>b. lps[ni := 0] ! k = int b \<and> lborder p (Suc k) b"
        proof
          assume "k < ni" then show ?thesis using tab[of k] by simp
        next
          assume "k = ni" then show ?thesis using lb nim len by (auto intro!: exI[of _ 0])
        qed
      next
        show "border p (nat (i + 1)) (nat j)"
          using lb by (simp add: i j00 lborder_def nat_add_distrib)
      next
        fix b assume "border p (nat (i + 1)) b \<and> p ! b = p ! nat (i + 1)"
        then have "border p (Suc ni) b" by (simp add: i nat_add_distrib)
        with lb show "b \<le> nat j" by (auto simp: lborder_def j00)
      qed (use j0 ji lt len in auto)
      then show ?thesis
        using False j00 gi gj st lt by (auto simp: lps_body_def)
    next
      case jn0: False
      then have njpos: "0 < nj" using j by simp
      have "nj - 1 < ni" using nji by simp
      from tab[OF this] have "\<exists>b. lps ! (nj - 1) = int b \<and> lborder p (Suc (nj - 1)) b" .
      moreover have "Suc (nj - 1) = nj" using njpos by simp
      ultimately obtain b0 where b0: "lps ! (nj - 1) = int b0" "lborder p nj b0"
        by metis
      have "py_get lps (int (nj - 1)) = Inr (lps ! (nj - 1))"
        using nji nim len by (intro py_get_nat) simp
      then have gl: "py_get lps (j - 1) = Inr (int b0)"
        using njpos b0(1) by (simp add: j of_nat_diff)
      from b0(2) have b0b: "border p nj b0" and b0m: "\<And>c. border p nj c \<Longrightarrow> c \<le> b0"
        by (auto simp: lborder_def)
      from b0b have b0lt: "b0 < nj" by (simp add: border_def)
      have "lps_inv p (lps, int b0, i)"
        unfolding lps_inv_def prod.case
      proof (intro conjI allI impI)
        show "border p (nat i) (nat (int b0))"
          using border_trans[OF bor b0b] by (simp add: ni_def)
      next
        fix b assume h: "border p (nat i) b \<and> p ! b = p ! nat i"
        then have "b \<le> nj" using mx by (simp add: ni_def)
        moreover have "b \<noteq> nj" using h False by (auto simp: ni_def)
        ultimately have "b < nj" by simp
        with h bor have "border p nj b" by (auto simp: ni_def intro: border_of_border)
        then show "b \<le> nat (int b0)" using b0m by simp
      next
        fix k assume "k < nat i"
        then show "\<exists>b. lps ! k = int b \<and> lborder p (Suc k) b" using tab[of k] by (simp add: ni_def)
      qed (use b0lt nji lt len i in auto)
      then show ?thesis
        using False jn0 gi gj gl b0lt by (auto simp: lps_body_def j)
    qed
  qed
qed

lemma compute_lps_table_ok:
  assumes "p \<noteq> []"
  shows "\<exists>lps. compute_lps_table p = Some (Inr lps) \<and> lps_ok p lps"
proof -
  let ?m = "int (length p)"
  let ?cond = "\<lambda>(lps :: int list, j :: int, i :: int). (Inr (i < ?m) :: py_error + bool)"
  let ?f = "\<lambda>s :: int list \<times> int \<times> int. 2 * nat (?m - snd (snd s)) + nat (fst (snd s))"
  have lb0: "lborder p (Suc 0) 0"
    using assms by (auto simp: lborder_def border_def Suc_le_eq)
  have init: "lps_inv p (py_repeat 0 ?m, 0, 1)"
    unfolding lps_inv_def prod.case
  proof (intro conjI allI impI)
    fix k assume "k < nat 1"
    then have "k = 0" by simp
    then show "\<exists>b. py_repeat 0 ?m ! k = int b \<and> lborder p (Suc k) b"
      using lb0 assms by (auto simp: py_repeat_def intro!: exI[of _ 0])
  next
    show "border p (nat 1) (nat 0)" using lb0 by (simp add: lborder_def)
  next
    fix b assume "border p (nat 1) b \<and> p ! b = p ! nat 1"
    then show "b \<le> nat 0" by (simp add: border_def)
  qed (use assms in \<open>auto simp: py_repeat_def Suc_le_eq\<close>)
  have "\<exists>s'. while_loop ?cond (\<lambda>s. Some (lps_body p s)) (py_repeat 0 ?m, 0, 1) = Some (Inr s')
          \<and> lps_inv p s' \<and> ?cond s' = Inr False"
  proof (rule while_loop_rule[where I = "lps_inv p" and f = ?f], goal_cases)
    case 1
    show ?case by (rule init)
  next
    case (2 s)
    then show ?case by (cases s) auto
  next
    case (3 s)
    obtain lps j i where s: "s = (lps, j, i)" by (cases s)
    from 3 s lps_body_step[of p lps j i] show ?case by auto
  qed
  then obtain lps j i where r: "while_loop ?cond (\<lambda>s. Some (lps_body p s)) (py_repeat 0 ?m, 0, 1) = Some (Inr (lps, j, i))"
    "lps_inv p (lps, j, i)" "\<not> i < ?m"
    by auto
  from r(2,3) have "nat i = length p" by (auto simp: lps_inv_def)
  with r(2) have "lps_ok p lps" by (auto simp: lps_inv_def lps_ok_def)
  with r(1) show ?thesis by (simp add: compute_lps_table_def)
qed

section \<open>One move of the KMP scan\<close>

lemma all_occ_extend_none:
  assumes "a \<le> a'" "\<And>s. a \<le> s \<Longrightarrow> s < a' \<Longrightarrow> \<not> occurs t p s"
  shows "all_occ t p a' = all_occ t p a"
proof -
  have "[0..<a'] = [0..<a] @ [a..<a']" using assms(1) by (metis le0 upt_add_eq_append le_add_diff_inverse)
  moreover have "filter (occurs t p) [a..<a'] = []" using assms(2) by (auto simp: filter_empty_conv)
  ultimately show ?thesis by (simp add: all_occ_def)
qed

lemma all_occ_extend_one:
  assumes "a < a'" "occurs t p a" "\<And>s. a < s \<Longrightarrow> s < a' \<Longrightarrow> \<not> occurs t p s"
  shows "all_occ t p a' = all_occ t p a @ [int a]"
proof -
  have "all_occ t p a' = all_occ t p (Suc a)"
    using assms by (intro all_occ_extend_none) auto
  then show ?thesis using assms(2) by (simp add: all_occ_def)
qed

lemma no_occ_between:
  assumes "pmatch t a p j" "lborder p j b0" "a < s" "s < a + j - b0"
  shows "\<not> occurs t p s"
proof
  assume "occurs t p s"
  define l where "l = a + j - s"
  from assms have b0j: "b0 < j" by (auto simp: lborder_def border_def)
  have l: "l < j" "b0 < l" "s + l = a + j" using assms(3,4) b0j by (auto simp: l_def)
  have "j \<le> length p" using assms(1) by (simp add: pmatch_def)
  with \<open>occurs t p s\<close> l(1) have "pmatch t s p l"
    by (auto simp: occurs_iff intro: pmatch_shorter)
  with assms(1) l have "border p j l" by (intro pmatch_border[of t a p j s l]) auto
  with assms(2) have "l \<le> b0" by (auto simp: lborder_def)
  with l(2) show False by simp
qed

lemma occurs_nth: "occurs t p s \<Longrightarrow> x < length p \<Longrightarrow> t ! (s + x) = p ! x"
  by (simp add: occurs_iff pmatch_def)

lemma kstep_inv:
  assumes ok: "lps_ok p lps" and inv: "kmp_inv t p (i, j, occ)" and lt: "i < int (length t)"
  shows "\<exists>i' j' occ'. kstep t p lps (i, j, occ) = (i', j', occ') \<and> kmp_inv t p (i', j', occ')
     \<and> 2 * i - j < 2 * i' - j' \<and> i' \<le> i + 1
     \<and> nat (2 * (int (length t) - i') + j') < nat (2 * (int (length t) - i) + j)"
proof -
  define ni nj a where "ni = nat i" and "nj = nat j" and "a = nat (i - j)"
  from inv have j0: "0 \<le> j" and jm: "j < int (length p)" and ji: "j \<le> i"
    and pm: "pmatch t a p nj" and occ: "occ = all_occ t p a"
    by (auto simp: kmp_inv_def nj_def a_def)
  have i: "i = int ni" and j: "j = int nj" and a: "a + nj = ni" "a = ni - nj" "nj \<le> ni"
    and njm: "nj < length p" and nin: "ni < length t"
    using j0 jm ji lt by (auto simp: ni_def nj_def a_def)
  from ok have tab: "\<And>k. k < length p \<Longrightarrow> \<exists>b. lps ! k = int b \<and> lborder p (Suc k) b"
    by (auto simp: lps_ok_def)
  show ?thesis
  proof (cases "p ! nj = t ! ni")
    case True
    have pmS: "pmatch t a p (Suc nj)"
      using pm a nin njm True by (intro pmatch_Suc) auto
    show ?thesis
    proof (cases "Suc nj = length p")
      case full: True
      from tab[OF njm] obtain b0 where b0: "lps ! nj = int b0" "lborder p (Suc nj) b0" by blast
      then have b0lt: "b0 < Suc nj" by (auto simp: lborder_def border_def)
      have oc: "occurs t p a" using pmS full by (simp add: occurs_iff)
      have "all_occ t p (a + Suc nj - b0) = all_occ t p a @ [int a]"
        using b0lt oc no_occ_between[OF pmS b0(2)] by (intro all_occ_extend_one) auto
      moreover have "pmatch t (a + Suc nj - b0) p b0"
        using pmS b0(2) by (intro border_pmatch) (auto simp: lborder_def)
      moreover have "nat (int ni + 1 - int b0) = a + Suc nj - b0" "int ni + 1 - (int nj + 1) = int a"
        using a b0lt by auto
      ultimately have "kmp_inv t p (i + 1, int b0, occ @ [i + 1 - (j + 1)])"
        using b0lt full lt a occ unfolding kmp_inv_def prod.case i j by auto
      moreover have "kstep t p lps (i, j, occ) = (i + 1, int b0, occ @ [i + 1 - (j + 1)])"
        using True full b0(1) by (auto simp: kstep_def i j)
      ultimately show ?thesis using b0lt lt jm by (auto simp: i j)
    next
      case part: False
      have "nat (int ni + 1 - (int nj + 1)) = a" using a by auto
      then have "kmp_inv t p (i + 1, j + 1, occ)"
        using pmS part njm lt a occ unfolding kmp_inv_def prod.case i j by (auto simp: nat_add_distrib)
      moreover have "kstep t p lps (i, j, occ) = (i + 1, j + 1, occ)"
        using True part by (auto simp: kstep_def i j)
      ultimately show ?thesis using lt jm j0 by auto
    qed
  next
    case False
    show ?thesis
    proof (cases "nj = 0")
      case z: True
      have "\<not> occurs t p ni"
        using occurs_nth[of t p ni 0] False njm z by auto
      then have "all_occ t p (Suc ni) = all_occ t p ni"
        by (intro all_occ_extend_none) (auto simp: less_Suc_eq)
      moreover have "a = ni" using a z by simp
      ultimately have "kmp_inv t p (i + 1, j, occ)"
        using z nin njm occ unfolding kmp_inv_def prod.case i j by (auto simp: nat_add_distrib)
      moreover have "kstep t p lps (i, j, occ) = (i + 1, j, occ)"
        using False z by (auto simp: kstep_def i j)
      ultimately show ?thesis using lt j0 by auto
    next
      case nz: False
      then have "nj - 1 < length p" "Suc (nj - 1) = nj" using njm by auto
      with tab[of "nj - 1"] obtain b0 where b0: "lps ! (nj - 1) = int b0" "lborder p nj b0" by metis
      then have b0lt: "b0 < nj" by (auto simp: lborder_def border_def)
      have na: "\<not> occurs t p a"
        using occurs_nth[of t p a nj] False njm a by auto
      have "\<not> occurs t p s" if "a \<le> s" "s < a + nj - b0" for s
      proof (cases "s = a")
        case True
        with na show ?thesis by simp
      next
        case False
        with that have "a < s" by simp
        from no_occ_between[OF pm b0(2) this that(2)] show ?thesis .
      qed
      then have "all_occ t p (a + nj - b0) = all_occ t p a"
        using b0lt by (intro all_occ_extend_none) auto
      moreover have "pmatch t (a + nj - b0) p b0"
        using pm b0(2) by (intro border_pmatch) (auto simp: lborder_def)
      moreover have "nat (int ni - int b0) = a + nj - b0"
        using a b0lt by auto
      ultimately have "kmp_inv t p (i, int b0, occ)"
        using b0lt njm nin a occ unfolding kmp_inv_def prod.case i j by auto
      moreover have "nat (int nj - 1) = nj - 1" by simp
      then have "kstep t p lps (i, j, occ) = (i, int b0, occ)"
        using False nz b0(1) by (auto simp: kstep_def i j)
      ultimately show ?thesis using b0lt lt by (auto simp: i j)
    qed
  qed
qed

section \<open>\<open>kmp_search\<close> and \<open>count_comparisons_kmp\<close>\<close>

lemma kmp_count_body_kstep:
  assumes "0 \<le> i" "i < int (length t)" "0 \<le> j" "j < int (length p)" "length lps = length p"
  shows "kmp_count_body t p lps (i, j, occ, c) =
         Inr (case kstep t p lps (i, j, occ) of (i', j', occ') \<Rightarrow> (i', j', occ', c + 1))"
proof -
  have "py_get p j = Inr (p ! nat j)" "py_get t i = Inr (t ! nat i)"
    using assms by (auto intro: py_get_in)
  moreover have "py_get lps j = Inr (lps ! nat j)"
    using assms by (auto intro: py_get_in)
  moreover have "j \<noteq> 0 \<Longrightarrow> py_get lps (j - 1) = Inr (lps ! nat (j - 1))"
    using assms by (auto intro: py_get_in)
  moreover have "j + 1 = int (length p) \<Longrightarrow> py_get lps (int (length p) - 1) = Inr (lps ! nat j)"
  proof -
    assume e: "j + 1 = int (length p)"
    then have "int (length p) - 1 = j" by simp
    then show ?thesis using assms by (simp add: py_get_in)
  qed
  ultimately show ?thesis
    by (auto simp: kmp_count_body_def kstep_def Let_def)
qed

lemma kmp_body_kstep:
  assumes "0 \<le> i" "i < int (length t)" "0 \<le> j" "j < int (length p)" "length lps = length p"
  shows "kmp_body t p lps (i, j, occ) =
         Inr (if p ! nat j = t ! nat i \<and> j + 1 \<noteq> int (length p) \<and> i + 1 < int (length t)
                 \<and> p ! nat (j + 1) \<noteq> t ! nat (i + 1)
              then kstep t p lps (kstep t p lps (i, j, occ))
              else kstep t p lps (i, j, occ))"
proof -
  have g: "py_get p j = Inr (p ! nat j)" "py_get t i = Inr (t ! nat i)"
    "py_get lps j = Inr (lps ! nat j)"
    using assms by (auto intro: py_get_in)
  have g1: "j \<noteq> 0 \<Longrightarrow> py_get lps (j - 1) = Inr (lps ! nat (j - 1))"
    using assms by (auto intro: py_get_in)
  have g2: "j + 1 \<noteq> int (length p) \<Longrightarrow> py_get p (j + 1) = Inr (p ! nat (j + 1))"
    using assms by (auto intro: py_get_in)
  have g3: "i + 1 < int (length t) \<Longrightarrow> py_get t (i + 1) = Inr (t ! nat (i + 1))"
    using assms by (auto intro: py_get_in)
  have g4: "j + 1 = int (length p) \<Longrightarrow> py_get lps (int (length p) - 1) = Inr (lps ! nat j)"
  proof -
    assume e: "j + 1 = int (length p)"
    then have "int (length p) - 1 = j" by simp
    then show ?thesis using assms by (simp add: py_get_in)
  qed
  show ?thesis
  proof (cases "p ! nat j = t ! nat i")
    case True
    then show ?thesis
      using g g2 g3 g4 assms(3) by (auto simp: kmp_body_def kstep_def Let_def)
  next
    case False
    then show ?thesis
      using g g1 assms(2,4) by (auto simp: kmp_body_def kstep_def Let_def)
  qed
qed

lemma all_occ_beyond:
  assumes "j < length p" "length t - j \<le> k"
  shows "all_occ t p k = all_occ t p (length t - j)"
  using assms by (intro all_occ_extend_none) (auto simp: occurs_def)

lemma kmp_inv_final:
  assumes "kmp_inv t p (i, j, occ)" "\<not> i < int (length t)"
  shows "occ = all_occ t p (Suc (length t))"
proof -
  from assms have "i = int (length t)" "0 \<le> j" "nat j < length p" "occ = all_occ t p (nat (i - j))"
    by (auto simp: kmp_inv_def)
  moreover then have "nat (i - j) = length t - nat j" by auto
  ultimately show ?thesis using all_occ_beyond[of "nat j" p t "Suc (length t)"] by simp
qed

lemma kmp_inv_init: "p \<noteq> [] \<Longrightarrow> kmp_inv t p (0, 0, [])"
  by (simp add: kmp_inv_def all_occ_def)

lemma kmp_search_correct:
  assumes "p \<noteq> []" "length p \<le> length t"
  shows "kmp_search t p = Some (Inr (all_occ t p (Suc (length t))))"
proof -
  let ?n = "int (length t)"
  from compute_lps_table_ok[OF assms(1)] obtain lps where
    lps: "compute_lps_table p = Some (Inr lps)" "lps_ok p lps" by blast
  let ?cond = "\<lambda>(i :: int, j :: int, occ :: int list). (Inr (i < ?n) :: py_error + bool)"
  let ?f = "\<lambda>(i :: int, j :: int, occ :: int list). nat (2 * (?n - i) + j)"
  have "\<exists>s'. while_loop ?cond (\<lambda>s. Some (kmp_body t p lps s)) (0, 0, []) = Some (Inr s')
          \<and> kmp_inv t p s' \<and> ?cond s' = Inr False"
  proof (rule while_loop_rule[where I = "kmp_inv t p" and f = ?f], goal_cases)
    case 1
    show ?case using assms(1) by (rule kmp_inv_init)
  next
    case (2 s)
    then show ?case by (cases s) auto
  next
    case (3 s)
    obtain i j occ where s: "s = (i, j, occ)" by (cases s)
    from 3 s have inv: "kmp_inv t p (i, j, occ)" and lt: "i < ?n" by auto
    from inv have r: "0 \<le> i" "0 \<le> j" "j < int (length p)" "length lps = length p"
      using lps(2) by (auto simp: kmp_inv_def lps_ok_def)
    from kstep_inv[OF lps(2) inv lt] obtain i1 j1 occ1 where
      s1: "kstep t p lps (i, j, occ) = (i1, j1, occ1)" "kmp_inv t p (i1, j1, occ1)"
        "i1 \<le> i + 1" "nat (2 * (?n - i1) + j1) < nat (2 * (?n - i) + j)"
      by blast
    show ?case
    proof (cases "p ! nat j = t ! nat i \<and> j + 1 \<noteq> int (length p) \<and> i + 1 < ?n
                 \<and> p ! nat (j + 1) \<noteq> t ! nat (i + 1)")
      case True
      with s1(1,3) have "i1 < ?n" by simp
      from kstep_inv[OF lps(2) s1(2) this] obtain i2 j2 occ2 where
        s2: "kstep t p lps (i1, j1, occ1) = (i2, j2, occ2)" "kmp_inv t p (i2, j2, occ2)"
          "nat (2 * (?n - i2) + j2) < nat (2 * (?n - i1) + j1)"
        by blast
      have "kmp_body t p lps (i, j, occ) = Inr (i2, j2, occ2)"
        using True kmp_body_kstep[OF r(1) lt r(2,3,4), of occ] s1(1) s2(1) by simp
      with s2 s1(4) s show ?thesis by auto
    next
      case False
      have "kmp_body t p lps (i, j, occ) = Inr (i1, j1, occ1)"
        using False kmp_body_kstep[OF r(1) lt r(2,3,4), of occ] s1(1) by auto
      with s1 s show ?thesis by auto
    qed
  qed
  then obtain i j occ where r: "while_loop ?cond (\<lambda>s. Some (kmp_body t p lps s)) (0, 0, []) = Some (Inr (i, j, occ))"
    "kmp_inv t p (i, j, occ)" "\<not> i < ?n"
    by auto
  from kmp_inv_final[OF r(2,3)] r(1) lps(1) assms show ?thesis
    by (simp add: kmp_search_def)
qed

lemma count_comparisons_kmp_correct:
  assumes "p \<noteq> []" "length p \<le> length t"
  shows "\<exists>c. count_comparisons_kmp t p = Some (Inr (all_occ t p (Suc (length t)), c))
           \<and> 0 \<le> c \<and> c \<le> 2 * int (length t)"
proof -
  let ?n = "int (length t)"
  from compute_lps_table_ok[OF assms(1)] obtain lps where
    lps: "compute_lps_table p = Some (Inr lps)" "lps_ok p lps" by blast
  let ?cond = "\<lambda>(i :: int, j :: int, occ :: int list, c :: int). (Inr (i < ?n) :: py_error + bool)"
  let ?f = "\<lambda>(i :: int, j :: int, occ :: int list, c :: int). nat (2 * (?n - i) + j)"
  let ?I = "\<lambda>(i :: int, j :: int, occ :: int list, c :: int).
              kmp_inv t p (i, j, occ) \<and> 0 \<le> c \<and> c \<le> 2 * i - j"
  have "\<exists>s'. while_loop ?cond (\<lambda>s. Some (kmp_count_body t p lps s)) (0, 0, [], 0) = Some (Inr s')
          \<and> ?I s' \<and> ?cond s' = Inr False"
  proof (rule while_loop_rule[where I = ?I and f = ?f], goal_cases)
    case 1
    show ?case using assms(1) by (simp add: kmp_inv_init)
  next
    case (2 s)
    then show ?case by (cases s) auto
  next
    case (3 s)
    obtain i j occ c where s: "s = (i, j, occ, c)" by (cases s)
    from 3 s have inv: "kmp_inv t p (i, j, occ)" and lt: "i < ?n" and c: "0 \<le> c" "c \<le> 2 * i - j"
      by auto
    from inv have r: "0 \<le> i" "0 \<le> j" "j < int (length p)" "length lps = length p"
      using lps(2) by (auto simp: kmp_inv_def lps_ok_def)
    from kstep_inv[OF lps(2) inv lt] obtain i1 j1 occ1 where
      s1: "kstep t p lps (i, j, occ) = (i1, j1, occ1)" "kmp_inv t p (i1, j1, occ1)"
        "2 * i - j < 2 * i1 - j1" "nat (2 * (?n - i1) + j1) < nat (2 * (?n - i) + j)"
      by blast
    have "kmp_count_body t p lps (i, j, occ, c) = Inr (i1, j1, occ1, c + 1)"
      using kmp_count_body_kstep[OF r(1) lt r(2,3,4), of occ c] s1(1) by simp
    with s1 s c show ?case by auto
  qed
  then obtain i j occ c where r:
    "while_loop ?cond (\<lambda>s. Some (kmp_count_body t p lps s)) (0, 0, [], 0) = Some (Inr (i, j, occ, c))"
    "kmp_inv t p (i, j, occ)" "0 \<le> c" "c \<le> 2 * i - j" "\<not> i < ?n"
    by auto
  from r(2) have "i \<le> ?n" "0 \<le> j" by (auto simp: kmp_inv_def)
  with r(4) have "c \<le> 2 * ?n" by linarith
  with kmp_inv_final[OF r(2,5)] r(1,3) lps(1) assms show ?thesis
    by (simp add: count_comparisons_kmp_def)
qed

section \<open>\<open>native_search\<close> returns all occurrences\<close>

lemma find_from_none: "(\<And>s. k \<le> s \<Longrightarrow> \<not> occurs t p s) \<Longrightarrow> find_from t p k = - 1"
proof (induction t p k rule: find_from.induct)
  case (1 t p k)
  show ?case
  proof (cases "k + length p \<le> length t")
    case True
    moreover have "take (length p) (drop k t) \<noteq> p"
      using 1(2)[of k] True by (simp add: occurs_def)
    moreover have "find_from t p (Suc k) = - 1"
      using True \<open>take (length p) (drop k t) \<noteq> p\<close> 1(2) by (intro 1(1)) auto
    ultimately show ?thesis by (subst find_from.simps) simp
  next
    case False
    then show ?thesis by (subst find_from.simps) simp
  qed
qed

lemma find_from_some:
  "k \<le> s \<Longrightarrow> occurs t p s \<Longrightarrow> (\<And>s'. k \<le> s' \<Longrightarrow> s' < s \<Longrightarrow> \<not> occurs t p s') \<Longrightarrow> find_from t p k = int s"
proof (induction t p k rule: find_from.induct)
  case (1 t p k)
  from 1(2,3) have le: "k + length p \<le> length t" by (simp add: occurs_def)
  show ?case
  proof (cases "k = s")
    case True
    with 1(3) le show ?thesis by (subst find_from.simps) (simp add: occurs_def)
  next
    case False
    with 1(2) have lt: "k < s" by simp
    with 1(4)[of k] le have ne: "take (length p) (drop k t) \<noteq> p" by (simp add: occurs_def)
    have "find_from t p (Suc k) = int s"
      using le ne lt 1(3,4) by (intro 1(1)) auto
    with le ne show ?thesis by (subst find_from.simps) simp
  qed
qed

lemma filter_upt_none: "(\<And>s. a \<le> s \<Longrightarrow> s < b \<Longrightarrow> \<not> P s) \<Longrightarrow> filter P [a..<b] = []"
  by (auto simp: filter_empty_conv)

lemma filter_upt_first:
  assumes "a \<le> s" "s < b" "P s" "\<And>s'. a \<le> s' \<Longrightarrow> s' < s \<Longrightarrow> \<not> P s'"
  shows "filter P [a..<b] = s # filter P [Suc s..<b]"
proof -
  have "[a..<b] = [a..<s] @ s # [Suc s..<b]"
    using assms(1,2) by (metis le_add_diff_inverse less_imp_le_nat upt_add_eq_append upt_conv_Cons)
  moreover have "filter P [a..<s] = []" using assms(4) by (intro filter_upt_none)
  ultimately show ?thesis using assms(3) by simp
qed

lemma native_loop_eq:
  "0 \<le> start \<Longrightarrow>
   native_loop t p start acc = acc @ map int (filter (occurs t p) [nat start..<Suc (length t)])"
proof (induction t p start acc rule: native_loop.induct)
  case (1 t p start acc)
  let ?n = "length t"
  show ?case
  proof (cases "\<exists>s. nat start \<le> s \<and> occurs t p s")
    case False
    then have none: "\<And>s. nat start \<le> s \<Longrightarrow> \<not> occurs t p s" by blast
    have "py_find t p start = - 1"
      using 1(2) find_from_none[of "nat start" t p] none
      by (auto simp: py_find_def Let_def py_clip_def)
    moreover have "filter (occurs t p) [nat start..<Suc ?n] = []"
      using none by (intro filter_upt_none)
    ultimately show ?thesis by (subst native_loop.simps) simp
  next
    case True
    then have "\<exists>s. (nat start \<le> s \<and> occurs t p s) \<and> (\<forall>s'<s. \<not> (nat start \<le> s' \<and> occurs t p s'))"
      by (subst (asm) exists_least_iff)
    then obtain s where s: "nat start \<le> s" "occurs t p s"
      and least: "\<And>s'. nat start \<le> s' \<Longrightarrow> s' < s \<Longrightarrow> \<not> occurs t p s'"
      by blast
    from s(2) have sn: "s \<le> ?n" by (simp add: occurs_def)
    with s(1) 1(2) have st: "start \<le> int ?n" by linarith
    then have "py_clip (int ?n) start = nat start" using 1(2) by (simp add: py_clip_def)
    with st have idx: "py_find t p start = int s"
      using find_from_some[OF s least] by (simp add: py_find_def Let_def)
    have "native_loop t p (int s + 1) (acc @ [int s]) =
          (acc @ [int s]) @ map int (filter (occurs t p) [nat (int s + 1)..<Suc ?n])"
      using idx by (intro 1(1)) auto
    moreover have "nat (int s + 1) = Suc s" by simp
    moreover have "filter (occurs t p) [nat start..<Suc ?n] = s # filter (occurs t p) [Suc s..<Suc ?n]"
      using s sn least by (intro filter_upt_first) auto
    ultimately show ?thesis using idx by (subst native_loop.simps) simp
  qed
qed

lemma native_search_eq: "native_search t p = all_occ t p (Suc (length t))"
  using native_loop_eq[of 0 t p "[]"] by (simp add: native_search_def all_occ_def)

lemma sorted_all_occ: "sorted_wrt (<) (all_occ t p k)"
proof -
  have "sorted_wrt (<) (filter (occurs t p) [0..<k])"
    by (rule sorted_wrt_filter) (simp add: sorted_wrt_upt) 
  then show ?thesis
    by (simp add: all_occ_def sorted_wrt_map)
qed

lemma set_all_occ_upto: "set (all_occ t p k) = int ` {s. s < k \<and> occurs t p s}"
  by (auto simp: all_occ_def)

lemma set_all_occ: "set (all_occ t p (Suc (length t))) = int ` {s. occurs t p s}"
proof -
  have "occurs t p s \<Longrightarrow> s < Suc (length t)" for s by (simp add: occurs_def)
  then have "{s. s < Suc (length t) \<and> occurs t p s} = {s. occurs t p s}" by blast
  then show ?thesis by (simp only: set_all_occ_upto)
qed

section \<open>Claims about KMP\<close>

text \<open>
  C6. For a non-empty pattern that is not longer than the text, \<open>count_comparisons_kmp\<close>
  returns, and its comparison count is at most twice the length of the text.
\<close>

theorem kmp_comparison_bound:
  assumes "p \<noteq> []" "length p \<le> length t"
  shows "\<exists>ms c. count_comparisons_kmp t p = Some (Inr (ms, c)) \<and> c \<le> 2 * int (length t)"
  using count_comparisons_kmp_correct[OF assms] by blast

theorem kmp_comparison_bound_witness:
  "''AAA'' \<noteq> [] \<and> length ''AAA'' \<le> length ''AAAAAAA''
   \<and> (\<exists>ms c. count_comparisons_kmp ''AAAAAAA'' ''AAA'' = Some (Inr (ms, c))
         \<and> c \<le> 2 * int (length ''AAAAAAA''))"
  using kmp_comparison_bound [of "''AAA''" "''AAAAAAA''"] by simp

section \<open>Borders of suffixes\<close>

lemma sborderD: "sborder p i j \<Longrightarrow> j + x < length p \<Longrightarrow> p ! (i + x) = p ! (j + x)"
  by (simp add: sborder_def)

lemma sborder_end: "i < length p \<Longrightarrow> sborder p i (length p)"
  by (simp add: sborder_def)

lemma sborder_trans:
  assumes "sborder p i j" "sborder p j k"
  shows "sborder p i k"
proof -
  have "p ! (i + x) = p ! (k + x)" if "k + x < length p" for x
  proof -
    from assms have "j < k" by (simp add: sborder_def)
    with that have "j + x < length p" by simp
    with assms(1) have "p ! (i + x) = p ! (j + x)" by (rule sborderD)
    also have "\<dots> = p ! (k + x)" using assms(2) that by (rule sborderD)
    finally show ?thesis .
  qed
  with assms show ?thesis by (auto simp: sborder_def)
qed

lemma sborder_of:
  assumes "sborder p i j" "sborder p i k" "j < k"
  shows "sborder p j k"
proof -
  have "p ! (j + x) = p ! (k + x)" if "k + x < length p" for x
  proof -
    from assms(3) that have "j + x < length p" by simp
    with assms(1) have "p ! (i + x) = p ! (j + x)" by (rule sborderD)
    moreover have "p ! (i + x) = p ! (k + x)" using assms(2) that by (rule sborderD)
    ultimately show ?thesis by simp
  qed
  with assms show ?thesis by (auto simp: sborder_def)
qed

lemma sborder_Suc:
  assumes "i < j" "j < length p"
  shows "sborder p i j \<longleftrightarrow> p ! i = p ! j \<and> sborder p (Suc i) (Suc j)"
proof
  assume h: "sborder p i j"
  from sborderD[OF h, of 0] assms have "p ! i = p ! j" by simp
  moreover have "p ! (Suc i + x) = p ! (Suc j + x)" if "Suc j + x < length p" for x
    using sborderD[OF h, of "Suc x"] that by simp
  ultimately show "p ! i = p ! j \<and> sborder p (Suc i) (Suc j)"
    using assms by (auto simp: sborder_def)
next
  assume h: "p ! i = p ! j \<and> sborder p (Suc i) (Suc j)"
  have "p ! (i + x) = p ! (j + x)" if "j + x < length p" for x
  proof (cases x)
    case 0
    with h show ?thesis by simp
  next
    case (Suc y)
    with that have "Suc j + y < length p" by simp
    from sborderD[OF conjunct2[OF h] this] Suc show ?thesis by simp
  qed
  with assms show "sborder p i j" by (auto simp: sborder_def)
qed

lemma wide_gt: "i \<le> length p \<Longrightarrow> wide p i j \<Longrightarrow> i < j \<and> j \<le> Suc (length p)"
  by (auto simp: wide_def sborder_def split: if_splits)

lemma wide_sborder: "i < length p \<Longrightarrow> wide p i j \<Longrightarrow> sborder p i j"
  by (auto simp: wide_def)

lemma wide_least: "i < length p \<Longrightarrow> wide p i j \<Longrightarrow> sborder p i j' \<Longrightarrow> j \<le> j'"
  by (auto simp: wide_def)

lemma can_shift_inner:
  assumes "1 \<le> d" "d \<le> jj" "jj < length p" "can_shift p jj d"
  shows "sborder p (Suc jj - d) (Suc jj) \<and> p ! (jj - d) \<noteq> p ! jj"
proof -
  have "p ! (Suc jj - d + x) = p ! (Suc jj + x)" if "Suc jj + x < length p" for x
  proof -
    define k where "k = Suc jj - d + x"
    have k: "jj < k + d" "k + d < length p" "k + d = Suc jj + x" using assms(1,2) that by (auto simp: k_def)
    with assms(4) have "p ! k = p ! (k + d)" unfolding can_shift_def by blast
    then show ?thesis unfolding k(3) by (simp add: k_def)
  qed
  then show ?thesis using assms by (auto simp: sborder_def can_shift_def)
qed

lemma can_shift_prefix:
  assumes "jj < d" "d \<le> length p" "can_shift p jj d"
  shows "sborder p 0 d"
proof -
  have "p ! (0 + x) = p ! (d + x)" if "d + x < length p" for x
  proof -
    have "jj < x + d" "x + d < length p" using assms(1) that by auto
    with assms(3) have "p ! x = p ! (x + d)" unfolding can_shift_def by blast
    then show ?thesis by (simp add: add.commute)
  qed
  then show ?thesis using assms by (auto simp: sborder_def)
qed

section \<open>The first phase of \<open>good_suffix_table\<close>: the inner loop\<close>

lemma gs_inner_cond_eq:
  assumes "1 \<le> i" "i \<le> int (length p)" "i < j"
  shows "gs_inner_cond p (int (length p)) i (shift, j) =
         Inr (j \<le> int (length p) \<and> p ! (nat i - 1) \<noteq> p ! (nat j - 1))"
proof (cases "j \<le> int (length p)")
  case True
  have "py_get p (i - 1) = Inr (p ! nat (i - 1))" using assms by (intro py_get_in) auto
  moreover have "py_get p (j - 1) = Inr (p ! nat (j - 1))" using assms True by (intro py_get_in) auto
  moreover have "nat (i - 1) = nat i - 1" "nat (j - 1) = nat j - 1" by auto
  ultimately show ?thesis using True by (simp add: gs_inner_cond_def)
next
  case False
  then show ?thesis by (simp add: gs_inner_cond_def)
qed

lemma gs_inner_step:
  assumes bt: "btab p bord (nat i)" and i: "1 \<le> i" "i \<le> int (length p)"
    and inv: "inner_inv p i (shift, j)"
    and jm: "j \<le> int (length p)" and ne: "p ! (nat i - 1) \<noteq> p ! (nat j - 1)"
  shows "\<exists>shift' j'. gs_inner_body (int (length p)) bord i (shift, j) = Inr (shift', j')
           \<and> inner_inv p i (shift', j') \<and> nat (int (length p) + 1 - j') < nat (int (length p) + 1 - j)"
proof -
  let ?m = "length p"
  define ni nj where "ni = nat i" and "nj = nat j"
  from inv have ij: "i < j" and sb: "sborder p ni nj"
    and handled: "\<And>j'. sborder p ni j' \<Longrightarrow> j' < nj \<Longrightarrow>
          p ! (ni - 1) \<noteq> p ! (j' - 1) \<and> shift ! (j' - 1) \<le> int (j' - ni)"
    and q: "qinv p shift i" and pv: "pinv p shift ni"
    using jm by (auto simp: inner_inv_def ni_def nj_def)
  have ii: "i = int ni" and jj: "j = int nj" and nij: "ni < nj" and njm: "nj \<le> ?m" and ni1: "1 \<le> ni"
    using i ij jm by (auto simp: ni_def nj_def)
  from q have len: "length shift = ?m" by (simp add: qinv_def)
  from bt have blen: "length bord = Suc ?m" by (simp add: btab_def)
  from bt nij njm obtain b where b: "bord ! nj = int b" "wide p nj b"
    unfolding btab_def ni_def[symmetric] by (metis less_imp_le_nat)
  from wide_gt[OF njm b(2)] have bgt: "nj < b" "b \<le> Suc ?m" by auto
  define shift' where "shift' = (if shift ! (nj - 1) = int ?m then shift[nj - 1 := j - i] else shift)"
  have idx: "nat (j - 1) = nj - 1" "0 \<le> j - 1" "j - 1 < int (length shift)"
    using nij njm len by (auto simp: jj)
  have g1: "py_get shift (j - 1) = Inr (shift ! (nj - 1))"
    using idx by (simp add: py_get_in)
  have g2: "py_set shift (j - 1) (j - i) = Inr (shift[nj - 1 := j - i])"
    using idx by (simp add: py_set_in)
  have g3: "py_get bord j = Inr (int b)"
    unfolding jj using njm blen b(1) by (simp add: py_get_nat)
  have body: "gs_inner_body (int ?m) bord i (shift, j) = Inr (shift', int b)"
    by (simp add: gs_inner_body_def g1 g2 g3 shift'_def)
  have len': "length shift' = ?m" using len by (simp add: shift'_def)
  have le: "shift' ! k \<le> shift ! k" if "k < ?m" for k
  proof (cases "shift ! (nj - 1) = int ?m \<and> k = nj - 1")
    case True
    then have "shift' ! k = j - i" using that len by (simp add: shift'_def)
    with True i jm show ?thesis by simp
  next
    case False
    then have "shift' ! k = shift ! k" by (auto simp: shift'_def)
    then show ?thesis by simp
  qed
  have new: "shift' ! (nj - 1) \<le> int (nj - ni)"
  proof (cases "shift ! (nj - 1) = int ?m")
    case True
    then show ?thesis using len nij njm by (simp add: shift'_def ii jj)
  next
    case False
    with q nij njm have "shift ! (nj - 1) + i \<le> int (nj - 1) + 1"
      unfolding qinv_def by (metis Suc_diff_1 Suc_le_lessD less_imp_diff_less less_nat_zero_code not_gr_zero)
    then show ?thesis using False nij by (simp add: shift'_def ii)
  qed
  have q': "qinv p shift' i"
    unfolding qinv_def
  proof (intro conjI allI impI)
    show "length shift' = ?m" by (rule len')
  next
    fix k assume k: "k < ?m"
    show "shift' ! k = int ?m \<or> (1 \<le> shift' ! k \<and> shift' ! k + i \<le> int k + 1)"
    proof (cases "shift ! (nj - 1) = int ?m \<and> k = nj - 1")
      case True
      then have "shift' ! k = j - i" using k len by (simp add: shift'_def)
      then show ?thesis using True nij by (simp add: ii jj)
    next
      case False
      then have "shift' ! k = shift ! k" by (auto simp: shift'_def)
      with q k show ?thesis by (simp add: qinv_def)
    qed
  qed
  have p': "pinv p shift' ni"
    unfolding pinv_def
  proof (intro allI impI)
    fix i' j' assume h: "ni < i' \<and> sborder p i' j' \<and> p ! (i' - 1) \<noteq> p ! (j' - 1)"
    with pv have "shift ! (j' - 1) \<le> int (j' - i')" unfolding pinv_def by blast
    moreover from h have "j' - 1 < ?m" by (auto simp: sborder_def)
    ultimately show "shift' ! (j' - 1) \<le> int (j' - i')" using le[of "j' - 1"] by simp
  qed
  have inv': "inner_inv p i (shift', int b)"
    unfolding inner_inv_def prod.case
  proof (intro conjI allI impI)
    show "i < int b" using nij bgt by (simp add: ii)
    show "int b \<le> int ?m + 1" using bgt by simp
    show "qinv p shift' i" by (rule q')
    show "pinv p shift' (nat i)" using p' by (simp add: ni_def)
  next
    assume "int b \<le> int ?m"
    then have "nj < ?m" using bgt by simp
    then have "sborder p nj b" using b(2) by (rule wide_sborder)
    with sb show "sborder p (nat i) (nat (int b))" by (auto simp: ni_def intro: sborder_trans)
  next
    fix j' assume h: "sborder p (nat i) j' \<and> j' < nat (int b)"
    then have sbj: "sborder p ni j'" and jb: "j' < b" by (auto simp: ni_def)
    then have j'm: "j' - 1 < ?m" by (auto simp: sborder_def)
    consider "j' < nj" | "j' = nj" | "nj < j'" by linarith
    then have "p ! (ni - 1) \<noteq> p ! (j' - 1) \<and> shift' ! (j' - 1) \<le> int (j' - ni)"
    proof cases
      case 1
      from handled[OF sbj 1] le[OF j'm] show ?thesis by simp
    next
      case 2
      with ne new show ?thesis by (simp add: ni_def nj_def)
    next
      case 3
      from sborder_of[OF sb sbj 3] have s3: "sborder p nj j'" .
      then have "nj < ?m" by (auto simp: sborder_def)
      from wide_least[OF this b(2) s3] jb show ?thesis by simp
    qed
    then show "p ! (nat i - 1) \<noteq> p ! (j' - 1)" "shift' ! (j' - 1) \<le> int (j' - nat i)"
      by (simp_all add: ni_def)
  qed
  have "nat (int ?m + 1 - int b) < nat (int ?m + 1 - j)" using bgt njm by (simp add: jj)
  with body inv' show ?thesis by blast
qed

section \<open>The first phase of \<open>good_suffix_table\<close>: the outer loop\<close>

lemma gs_inner_loop:
  assumes bt: "btab p bord (nat i)" and i: "1 \<le> i" "i \<le> int (length p)"
    and inv: "inner_inv p i (shift, j)"
  shows "\<exists>shift' j'. while_loop (gs_inner_cond p (int (length p)) i)
             (\<lambda>s. Some (gs_inner_body (int (length p)) bord i s)) (shift, j) = Some (Inr (shift', j'))
           \<and> inner_inv p i (shift', j')
           \<and> \<not> (j' \<le> int (length p) \<and> p ! (nat i - 1) \<noteq> p ! (nat j' - 1))"
proof -
  let ?m = "int (length p)"
  let ?f = "\<lambda>s :: int list \<times> int. nat (?m + 1 - snd s)"
  have "\<exists>s'. while_loop (gs_inner_cond p ?m i) (\<lambda>s. Some (gs_inner_body ?m bord i s)) (shift, j) = Some (Inr s')
          \<and> inner_inv p i s' \<and> gs_inner_cond p ?m i s' = Inr False"
  proof (rule while_loop_rule[where I = "inner_inv p i" and f = ?f], goal_cases)
    case 1
    show ?case by (rule inv)
  next
    case (2 s)
    obtain sh jx where s: "s = (sh, jx)" by (cases s)
    with 2 have "i < jx" by (simp add: inner_inv_def)
    from gs_inner_cond_eq[OF i this] s show ?case by blast
  next
    case (3 s)
    obtain sh jx where s: "s = (sh, jx)" by (cases s)
    with 3 have iv: "inner_inv p i (sh, jx)" and "i < jx" by (simp_all add: inner_inv_def)
    from gs_inner_cond_eq[OF i this(2), of sh] 3(2) s
    have "jx \<le> ?m" "p ! (nat i - 1) \<noteq> p ! (nat jx - 1)" by auto
    from gs_inner_step[OF bt i iv this] s show ?case by auto
  qed
  then obtain sh jx where r: "while_loop (gs_inner_cond p ?m i) (\<lambda>s. Some (gs_inner_body ?m bord i s)) (shift, j)
      = Some (Inr (sh, jx))" "inner_inv p i (sh, jx)" "gs_inner_cond p ?m i (sh, jx) = Inr False"
    by auto
  from r(2) have "i < jx" by (simp add: inner_inv_def)
  from gs_inner_cond_eq[OF i this, of sh] r(3)
  have "\<not> (jx \<le> ?m \<and> p ! (nat i - 1) \<noteq> p ! (nat jx - 1))" by simp
  with r(1,2) show ?thesis by blast
qed

lemma wide_pred:
  assumes a: "Suc a \<le> length p" and c: "a < c" "c \<le> length p"
    and sb: "c < length p \<Longrightarrow> p ! a = p ! c \<and> sborder p (Suc a) (Suc c)"
    and handled: "\<And>j'. sborder p (Suc a) j' \<Longrightarrow> j' < Suc c \<Longrightarrow> p ! a \<noteq> p ! (j' - 1)"
  shows "wide p a c"
proof -
  have am: "a < length p" using a by simp
  have 1: "sborder p a c"
  proof (cases "c < length p")
    case True
    with sb c(1) show ?thesis by (simp add: sborder_Suc)
  next
    case False
    with c(2) have "c = length p" by simp
    with am show ?thesis by (simp add: sborder_end)
  qed
  have 2: "c \<le> j''" if h: "sborder p a j''" for j''
  proof (rule ccontr)
    assume "\<not> c \<le> j''"
    then have lt: "j'' < c" by simp
    with c(2) have "j'' < length p" by simp
    moreover from h have "a < j''" by (simp add: sborder_def)
    ultimately have "p ! a = p ! j''" "sborder p (Suc a) (Suc j'')"
      using h by (simp_all add: sborder_Suc)
    with handled[of "Suc j''"] lt show False by simp
  qed
  from 1 2 am show ?thesis by (auto simp: wide_def)
qed

lemma gs_outer_step:
  assumes inv: "outer_inv p (shift, bord, i, j)" and pos: "0 < i"
  shows "\<exists>shift' bord' j'. gs_outer_body p (int (length p)) (shift, bord, i, j)
              = Some (Inr (shift', bord', i - 1, j'))
           \<and> outer_inv p (shift', bord', i - 1, j')"
proof -
  let ?m = "int (length p)"
  define ni where "ni = nat i"
  from inv have im: "i \<le> ?m" and jb: "j = bord ! ni" and bt: "btab p bord ni"
    and q: "qinv p shift (i + 1)" and pv: "pinv p shift ni"
    by (auto simp: outer_inv_def ni_def)
  have ii: "i = int ni" and ni1: "1 \<le> ni" and nim: "ni \<le> length p"
    using pos im by (auto simp: ni_def)
  from bt nim obtain b where b: "bord ! ni = int b" "wide p ni b"
    unfolding btab_def by blast
  from wide_gt[OF nim b(2)] have bgt: "ni < b" "b \<le> Suc (length p)" by auto
  have q0: "qinv p shift i" using q by (auto simp: qinv_def)
  have init: "inner_inv p i (shift, j)"
    unfolding inner_inv_def prod.case
  proof (intro conjI allI impI)
    show "i < j" "j \<le> ?m + 1" using jb b(1) bgt by (simp_all add: ii)
    show "qinv p shift i" by (rule q0)
    show "pinv p shift (nat i)" using pv by (simp add: ni_def)
  next
    assume "j \<le> ?m"
    then have "ni < length p" using jb b(1) bgt by simp
    then have "sborder p ni b" using b(2) by (rule wide_sborder)
    then show "sborder p (nat i) (nat j)" using jb b(1) by (simp add: ni_def)
  next
    fix j' assume h: "sborder p (nat i) j' \<and> j' < nat j"
    then have "sborder p ni j'" "j' < b" using jb b(1) by (simp_all add: ni_def)
    moreover from this have "ni < length p" by (auto simp: sborder_def)
    ultimately have False using wide_least[OF _ b(2), of j'] by simp
    then show "p ! (nat i - 1) \<noteq> p ! (j' - 1)" "shift ! (j' - 1) \<le> int (j' - nat i)" by simp_all
  qed
  have i1: "1 \<le> i" using pos by simp
  from gs_inner_loop[OF _ i1 im init, of bord] bt obtain sh jx where
    lp: "while_loop (gs_inner_cond p ?m i) (\<lambda>s. Some (gs_inner_body ?m bord i s)) (shift, j) = Some (Inr (sh, jx))"
    and iv: "inner_inv p i (sh, jx)"
    and ex: "\<not> (jx \<le> ?m \<and> p ! (ni - 1) \<noteq> p ! (nat jx - 1))"
    by (auto simp: ni_def)
  define nj where "nj = nat jx"
  from iv have ij: "i < jx" and jm1: "jx \<le> ?m + 1"
    and sb: "jx \<le> ?m \<Longrightarrow> sborder p ni nj"
    and handled: "\<And>j'. sborder p ni j' \<Longrightarrow> j' < nj \<Longrightarrow>
          p ! (ni - 1) \<noteq> p ! (j' - 1) \<and> sh ! (j' - 1) \<le> int (j' - ni)"
    and q': "qinv p sh i" and pv': "pinv p sh ni"
    by (auto simp: inner_inv_def ni_def nj_def)
  have jj: "jx = int nj" and nij: "ni < nj" and njm: "nj \<le> Suc (length p)"
    using ij jm1 pos by (auto simp: nj_def ni_def)
  from bt have blen: "length bord = Suc (length p)" by (simp add: btab_def)
  define bord' where "bord' = bord[ni - 1 := jx - 1]"
  have st: "py_set bord (i - 1) (jx - 1) = Inr bord'"
    using pos im blen by (simp add: py_set_in bord'_def ni_def nat_diff_distrib)
  have body: "gs_outer_body p ?m (shift, bord, i, j) = Some (Inr (sh, bord', i - 1, jx - 1))"
    by (simp add: gs_outer_body_def lp st Let_def)
  have wd: "wide p (ni - 1) (nj - 1)"
  proof (rule wide_pred)
    show "Suc (ni - 1) \<le> length p" using ni1 nim by simp
    show "ni - 1 < nj - 1" using ni1 nij by simp
    show "nj - 1 \<le> length p" using njm by simp
  next
    assume lt: "nj - 1 < length p"
    then have "jx \<le> ?m" using nij by (simp add: jj)
    with ex sb have "p ! (ni - 1) = p ! (nj - 1)" "sborder p ni nj" by (auto simp: nj_def)
    then show "p ! (ni - 1) = p ! (nj - 1) \<and> sborder p (Suc (ni - 1)) (Suc (nj - 1))"
      using ni1 nij by simp
  next
    fix j' assume "sborder p (Suc (ni - 1)) j'" "j' < Suc (nj - 1)"
    then have "sborder p ni j'" "j' < nj" using ni1 nij by simp_all
    from handled[OF this] show "p ! (ni - 1) \<noteq> p ! (j' - 1)" by simp
  qed
  have inv': "outer_inv p (sh, bord', i - 1, jx - 1)"
    unfolding outer_inv_def prod.case
  proof (intro conjI)
    show "0 \<le> i - 1" "i - 1 \<le> ?m" using pos im by simp_all
    show "jx - 1 = bord' ! nat (i - 1)"
      using ni1 nim blen by (simp add: bord'_def ni_def nat_diff_distrib)
    show "qinv p sh (i - 1 + 1)" using q' by simp
  next
    show "btab p bord' (nat (i - 1))"
      unfolding btab_def
    proof (intro conjI allI impI)
      show "length bord' = Suc (length p)" using blen by (simp add: bord'_def)
    next
      fix k assume k: "nat (i - 1) \<le> k \<and> k \<le> length p"
      show "\<exists>b. bord' ! k = int b \<and> wide p k b"
      proof (cases "k = ni - 1")
        case True
        then have "bord' ! k = int (nj - 1)"
          using nim blen nij by (simp add: bord'_def jj of_nat_diff)
        with wd True show ?thesis by blast
      next
        case False
        with k have "ni \<le> k" by (auto simp: ni_def)
        with bt k obtain b' where "bord ! k = int b'" "wide p k b'" unfolding btab_def by blast
        with False show ?thesis by (auto simp: bord'_def)
      qed
    qed
  next
    show "pinv p sh (nat (i - 1))"
      unfolding pinv_def
    proof (intro allI impI)
      fix i' j' assume h: "nat (i - 1) < i' \<and> sborder p i' j' \<and> p ! (i' - 1) \<noteq> p ! (j' - 1)"
      then have "ni \<le> i'" by (auto simp: ni_def)
      then consider "ni < i'" | "i' = ni" "j' < nj" | "i' = ni" "nj \<le> j'" by linarith
      then show "sh ! (j' - 1) \<le> int (j' - i')"
      proof cases
        case 1
        with pv' h show ?thesis unfolding pinv_def by blast
      next
        case 2
        with handled[of j'] h show ?thesis by simp
      next
        case 3
        from h 3 have sj: "sborder p ni j'" and ne: "p ! (ni - 1) \<noteq> p ! (j' - 1)" by simp_all
        then have "j' \<le> length p" by (simp add: sborder_def)
        with 3 have jle: "jx \<le> ?m" by (simp add: jj)
        with ex have eq: "p ! (ni - 1) = p ! (nj - 1)" by (simp add: nj_def)
        with ne 3 have lt: "nj < j'" by (cases "nj = j'") auto
        from sborder_of[OF sb[OF jle] sj lt] have "sborder p nj j'" .
        with pv' nij eq ne have "sh ! (j' - 1) \<le> int (j' - nj)"
          unfolding pinv_def by metis
        with 3 nij show ?thesis by simp
      qed
    qed
  qed
  from body inv' show ?thesis by blast
qed

section \<open>The second phase of \<open>good_suffix_table\<close>\<close>

lemma gs_outer_loop:
  assumes "p \<noteq> []"
  shows "\<exists>shift bord j. while_loop (\<lambda>(shift, bord, i, j). Inr (i > 0)) (gs_outer_body p (int (length p)))
            (py_repeat (int (length p)) (int (length p)),
             (py_repeat 0 (int (length p) + 1))[length p := int (length p) + 1],
             int (length p), int (length p) + 1) = Some (Inr (shift, bord, 0, j))
          \<and> outer_inv p (shift, bord, 0, j)"
proof -
  let ?m = "int (length p)"
  let ?s0 = "(py_repeat ?m ?m, (py_repeat 0 (?m + 1))[length p := ?m + 1], ?m, ?m + 1)"
  let ?cond = "\<lambda>(shift :: int list, bord :: int list, i :: int, j :: int). (Inr (i > 0) :: py_error + bool)"
  let ?f = "\<lambda>(shift :: int list, bord :: int list, i :: int, j :: int). nat i"
  have init: "outer_inv p ?s0"
    unfolding outer_inv_def prod.case
  proof (intro conjI)
    have r: "py_repeat (0::int) (?m + 1) = replicate (Suc (length p)) 0"
      by (simp add: py_repeat_def nat_add_distrib del: replicate.simps)
    have "(replicate (Suc (length p)) (0::int))[length p := ?m + 1] ! length p = int (Suc (length p))"
      by (simp del: replicate.simps)
    moreover have "wide p (length p) (Suc (length p))" by (simp add: wide_def)
    ultimately show "btab p ((py_repeat 0 (?m + 1))[length p := ?m + 1]) (nat ?m)"
      unfolding btab_def r by (auto simp del: replicate.simps intro!: exI[of _ "Suc (length p)"])
    show "qinv p (py_repeat ?m ?m) (?m + 1)"
      by (simp add: qinv_def py_repeat_def)
    show "pinv p (py_repeat ?m ?m) (nat ?m)"
      by (auto simp: pinv_def sborder_def)
    show "?m + 1 = (py_repeat 0 (?m + 1))[length p := ?m + 1] ! nat ?m"
      by (simp add: py_repeat_def nat_add_distrib del: replicate.simps)
  qed simp_all
  have "\<exists>s'. while_loop ?cond (gs_outer_body p ?m) ?s0 = Some (Inr s') \<and> outer_inv p s' \<and> ?cond s' = Inr False"
  proof (rule while_loop_rule[where I = "outer_inv p" and f = ?f], goal_cases)
    case 1
    show ?case by (rule init)
  next
    case (2 s)
    then show ?case by (cases s) auto
  next
    case (3 s)
    obtain sh bd i j where s: "s = (sh, bd, i, j)" by (cases s)
    with 3 have "outer_inv p (sh, bd, i, j)" "0 < i" by auto
    from gs_outer_step[OF this] s \<open>0 < i\<close> show ?case by auto
  qed
  then obtain sh bd i j where r: "while_loop ?cond (gs_outer_body p ?m) ?s0 = Some (Inr (sh, bd, i, j))"
    "outer_inv p (sh, bd, i, j)" "\<not> 0 < i"
    by auto
  from r(2,3) have "i = 0" by (simp add: outer_inv_def)
  with r show ?thesis by blast
qed

lemma gs_fill_step:
  assumes bt: "btab p bord 0" and inv: "fill_inv p i (shift, j)" and i: "0 \<le> i" "i < int (length p)"
  shows "\<exists>s'. gs_fill_body (int (length p)) bord i (shift, j) = Inr s' \<and> fill_inv p (i + 1) s'"
proof -
  let ?m = "length p"
  define ni nj where "ni = nat i" and "nj = nat j"
  from inv have len: "length shift = ?m" and j1: "1 \<le> j" and jm: "j \<le> int ?m" and ij: "i \<le> j"
    and sb: "sborder p 0 nj" and least: "\<And>d. sborder p 0 d \<Longrightarrow> ni \<le> d \<Longrightarrow> nj \<le> d"
    and fin: "\<And>k. k < ni \<Longrightarrow> 1 \<le> shift ! k \<and> shift ! k \<le> int ?m \<and>
        (\<forall>d. 1 \<le> d \<and> int d < shift ! k \<longrightarrow> \<not> can_shift p k d)"
    and rest: "\<And>k. ni \<le> k \<Longrightarrow> k < ?m \<Longrightarrow> shift ! k = int ?m \<or> (1 \<le> shift ! k \<and> shift ! k \<le> int k)"
    and pv: "pinv p shift 0"
    by (auto simp: fill_inv_def ni_def nj_def)
  have ii: "i = int ni" and jj: "j = int nj" and nim: "ni < ?m" and nij: "ni \<le> nj" and njm: "nj \<le> ?m"
    and nj1: "1 \<le> nj"
    using i ij j1 jm by (auto simp: ni_def nj_def)
  from bt have blen: "length bord = Suc ?m" by (simp add: btab_def)
  define shift' where "shift' = (if shift ! ni = int ?m then shift[ni := j] else shift)"
  have g1: "py_get shift i = Inr (shift ! ni)" unfolding ii using nim len by (simp add: py_get_nat)
  have g2: "py_set shift i j = Inr (shift[ni := j])" unfolding ii using nim len by (simp add: py_set_nat)
  have len': "length shift' = ?m" using len by (simp add: shift'_def)
  have other: "shift' ! k = shift ! k" if "k \<noteq> ni" for k using that by (simp add: shift'_def)
  have le: "shift' ! k \<le> shift ! k" if "k < ?m" for k
    using that len jm by (cases "k = ni") (auto simp: shift'_def)
  have pv': "pinv p shift' 0"
    unfolding pinv_def
  proof (intro allI impI)
    fix i' j' assume h: "0 < i' \<and> sborder p i' j' \<and> p ! (i' - 1) \<noteq> p ! (j' - 1)"
    with pv have "shift ! (j' - 1) \<le> int (j' - i')" unfolding pinv_def by blast
    moreover from h have "j' - 1 < ?m" by (auto simp: sborder_def)
    ultimately show "shift' ! (j' - 1) \<le> int (j' - i')" using le[of "j' - 1"] by simp
  qed
  have val: "shift' ! ni = (if shift ! ni = int ?m then j else shift ! ni)"
    using nim len by (simp add: shift'_def)
  have F: "1 \<le> shift' ! ni \<and> shift' ! ni \<le> int ?m \<and>
        (\<forall>d. 1 \<le> d \<and> int d < shift' ! ni \<longrightarrow> \<not> can_shift p ni d)"
  proof (intro conjI allI impI)
    show "1 \<le> shift' ! ni" "shift' ! ni \<le> int ?m"
      using rest[of ni] nim j1 jm by (auto simp: val)
  next
    fix d assume d: "1 \<le> d \<and> int d < shift' ! ni"
    show "\<not> can_shift p ni d"
    proof
      assume c: "can_shift p ni d"
      show False
      proof (cases "d \<le> ni")
        case True
        from can_shift_inner[OF _ True nim c] d
        have "sborder p (Suc ni - d) (Suc ni)" "p ! (ni - d) \<noteq> p ! ni" by auto
        moreover have "0 < Suc ni - d" "Suc ni - d - 1 = ni - d" using True by auto
        ultimately have "shift' ! (Suc ni - 1) \<le> int (Suc ni - (Suc ni - d))"
          using pv' unfolding pinv_def by (metis diff_Suc_1)
        with True d show False by simp
      next
        case False
        then have nd: "ni < d" by simp
        show False
        proof (cases "shift ! ni = int ?m")
          case True
          with d have dj: "d < nj" by (simp add: val jj)
          with njm have "d \<le> ?m" by simp
          from can_shift_prefix[OF nd this c] have "sborder p 0 d" .
          from least[OF this] nd dj show False by simp
        next
          case False
          with rest[of ni] nim have "shift ! ni \<le> int ni" by auto
          with False d nd show False by (simp add: val)
        qed
      qed
    qed
  qed
  show ?thesis
  proof (cases "i = j")
    case True
    then have nij': "nj = ni" by (simp add: ni_def nj_def)
    from bt njm obtain b where b: "bord ! nj = int b" "wide p nj b" unfolding btab_def by blast
    from nij' nim have njlt: "nj < ?m" by simp
    from wide_gt[of nj p b] b(2) njm have bgt: "nj < b" "b \<le> Suc ?m" by auto
    from wide_sborder[OF njlt b(2)] have sbb: "sborder p nj b" .
    then have bm: "b \<le> ?m" by (simp add: sborder_def)
    have g3: "py_get bord j = Inr (int b)"
      unfolding jj using njm blen b(1) by (simp add: py_get_nat)
    have body: "gs_fill_body (int ?m) bord i (shift, j) = Inr (shift', int b)"
      using True g1 g2 g3 by (simp add: gs_fill_body_def shift'_def)
    have "fill_inv p (i + 1) (shift', int b)"
      unfolding fill_inv_def prod.case
    proof (intro conjI allI impI)
      show "length shift' = ?m" by (rule len')
      show "1 \<le> int b" "int b \<le> int ?m" "i + 1 \<le> int b" using bgt bm nij' nj1 by (simp_all add: ii)
      show "sborder p 0 (nat (int b))" using sborder_trans[OF sb sbb] by simp
      show "pinv p shift' 0" by (rule pv')
    next
      fix d assume h: "sborder p 0 d \<and> nat (i + 1) \<le> d"
      then have "nj < d" using nij' by (auto simp: ii nat_add_distrib)
      from sborder_of[OF sb conjunct1[OF h] this] have "sborder p nj d" .
      from wide_least[OF njlt b(2) this] show "nat (int b) \<le> d" by simp
    next
      fix k assume "k < nat (i + 1)"
      then have "k < ni \<or> k = ni" by (auto simp: ii)
      then have "1 \<le> shift' ! k \<and> shift' ! k \<le> int ?m \<and>
        (\<forall>d. 1 \<le> d \<and> int d < shift' ! k \<longrightarrow> \<not> can_shift p k d)"
      proof
        assume "k < ni" with fin[of k] other[of k] show ?thesis by simp
      next
        assume "k = ni" with F show ?thesis by simp
      qed
      then show "1 \<le> shift' ! k" "shift' ! k \<le> int ?m"
        "\<And>d. 1 \<le> d \<and> int d < shift' ! k \<Longrightarrow> \<not> can_shift p k d" by auto
    next
      fix k assume "nat (i + 1) \<le> k \<and> k < ?m"
      then have "ni \<le> k" "k < ?m" "k \<noteq> ni" by (auto simp: ii)
      with rest[of k] other[of k]
      show "shift' ! k = int ?m \<or> (1 \<le> shift' ! k \<and> shift' ! k \<le> int k)" by simp
    qed
    with body show ?thesis by blast
  next
    case False
    then have lt: "ni < nj" using nij by (auto simp: ii jj)
    have body: "gs_fill_body (int ?m) bord i (shift, j) = Inr (shift', j)"
      using False g1 g2 by (simp add: gs_fill_body_def shift'_def)
    have "fill_inv p (i + 1) (shift', j)"
      unfolding fill_inv_def prod.case
    proof (intro conjI allI impI)
      show "length shift' = ?m" by (rule len')
      show "1 \<le> j" "j \<le> int ?m" "i + 1 \<le> j" using j1 jm lt by (simp_all add: ii jj)
      show "sborder p 0 (nat j)" using sb by (simp add: nj_def)
      show "pinv p shift' 0" by (rule pv')
    next
      fix d assume h: "sborder p 0 d \<and> nat (i + 1) \<le> d"
      then have "ni \<le> d" by (auto simp: ii nat_add_distrib)
      from least[OF conjunct1[OF h] this] show "nat j \<le> d" by (simp add: nj_def)
    next
      fix k assume "k < nat (i + 1)"
      then have "k < ni \<or> k = ni" by (auto simp: ii)
      then have "1 \<le> shift' ! k \<and> shift' ! k \<le> int ?m \<and>
        (\<forall>d. 1 \<le> d \<and> int d < shift' ! k \<longrightarrow> \<not> can_shift p k d)"
      proof
        assume "k < ni" with fin[of k] other[of k] show ?thesis by simp
      next
        assume "k = ni" with F show ?thesis by simp
      qed
      then show "1 \<le> shift' ! k" "shift' ! k \<le> int ?m"
        "\<And>d. 1 \<le> d \<and> int d < shift' ! k \<Longrightarrow> \<not> can_shift p k d" by auto
    next
      fix k assume "nat (i + 1) \<le> k \<and> k < ?m"
      then have "ni \<le> k" "k < ?m" "k \<noteq> ni" by (auto simp: ii)
      with rest[of k] other[of k]
      show "shift' ! k = int ?m \<or> (1 \<le> shift' ! k \<and> shift' ! k \<le> int k)" by simp
    qed
    with body show ?thesis by blast
  qed
qed

section \<open>\<open>good_suffix_table\<close> returns safe shifts\<close>

lemma good_suffix_table_ok:
  assumes "p \<noteq> []"
  shows "\<exists>gs. good_suffix_table p = Some (Inr gs) \<and> gs_ok p gs"
proof -
  let ?m = "int (length p)"
  let ?b0 = "(py_repeat 0 (?m + 1))[length p := ?m + 1]"
  have st: "py_set (py_repeat 0 (?m + 1)) ?m (?m + 1) = Inr ?b0"
    by (simp add: py_set_def py_repeat_def Let_def)
  from gs_outer_loop[OF assms] obtain shift bord j where
    lp: "while_loop (\<lambda>(shift, bord, i, j). Inr (i > 0)) (gs_outer_body p ?m)
            (py_repeat ?m ?m, ?b0, ?m, ?m + 1) = Some (Inr (shift, bord, 0, j))"
    and oi: "outer_inv p (shift, bord, 0, j)"
    by blast
  from oi have bt: "btab p bord 0" and q: "qinv p shift 1" and pv: "pinv p shift 0"
    by (auto simp: outer_inv_def)
  from bt obtain b where b: "bord ! 0 = int b" "wide p 0 b" unfolding btab_def by blast
  from assms have m0: "0 < length p" by simp
  from wide_sborder[OF m0 b(2)] have sb: "sborder p 0 b" .
  then have bb: "1 \<le> b" "b \<le> length p" by (auto simp: sborder_def)
  from bt have g0: "py_get bord 0 = Inr (int b)"
    using b(1) by (simp add: py_get_def btab_def)
  have init: "fill_inv p 0 (shift, int b)"
    unfolding fill_inv_def prod.case
  proof (intro conjI allI impI)
    show "length shift = length p" using q by (simp add: qinv_def)
    show "1 \<le> int b" "int b \<le> ?m" "0 \<le> int b" using bb by simp_all
    show "sborder p 0 (nat (int b))" using sb by simp
    show "pinv p shift 0" by (rule pv)
  next
    fix d assume "sborder p 0 d \<and> nat 0 \<le> d"
    then show "nat (int b) \<le> d" using wide_least[OF m0 b(2)] by simp
  next
    fix k assume "nat 0 \<le> k \<and> k < length p"
    with q show "shift ! k = ?m \<or> (1 \<le> shift ! k \<and> shift ! k \<le> int k)"
      by (auto simp: qinv_def)
  qed simp_all
  have "\<exists>s'. for_loop (py_range 0 ?m) (gs_fill_body ?m bord) (shift, int b) = Inr s'
          \<and> fill_inv p (max 0 ?m) s'"
  proof (rule for_range_rule[where I = "fill_inv p"], goal_cases)
    case 1
    show ?case by (rule init)
  next
    case (2 i s)
    obtain sh jx where s: "s = (sh, jx)" by (cases s)
    from gs_fill_step[OF bt _ 2(1,2), of sh jx] 2(3) s show ?case by simp
  qed
  then obtain gs jx where fl: "for_loop (py_range 0 ?m) (gs_fill_body ?m bord) (shift, int b) = Inr (gs, jx)"
    and fi: "fill_inv p ?m (gs, jx)"
    by (auto simp: max_def)
  from fi have "gs_ok p gs" by (auto simp: fill_inv_def gs_ok_def)
  moreover have "good_suffix_table p = Some (Inr gs)"
    by (simp add: good_suffix_table_def Let_def st lp g0 fl)
  ultimately show ?thesis by blast
qed

section \<open>The bad-character table and the right-to-left comparison\<close>

lemma bad_character_table_ok: "\<exists>bc. bad_character_table p = Inr bc \<and> bc_ok p bc"
proof -
  let ?m = "int (length p)"
  let ?I = "\<lambda>i bc. (\<forall>c. - 1 \<le> dict_get bc c (- 1)) \<and> (\<forall>k<nat i. int k \<le> dict_get bc (p ! k) (- 1))"
  have "\<exists>bc. for_loop (py_range 0 ?m) (\<lambda>i bad_char. bindE (py_get p i) (\<lambda>c. Inr (bad_char(c \<mapsto> i)))) Map.empty = Inr bc
          \<and> ?I (max 0 ?m) bc"
  proof (rule for_range_rule[where I = ?I], goal_cases)
    case 1
    show ?case by (simp add: dict_get_def)
  next
    case (2 i bc)
    then have g: "py_get p i = Inr (p ! nat i)" by (intro py_get_in) auto
    have "?I (i + 1) (bc(p ! nat i \<mapsto> i))"
    proof (intro conjI allI impI)
      fix c show "- 1 \<le> dict_get (bc(p ! nat i \<mapsto> i)) c (- 1)"
        using 2 by (auto simp: dict_get_def)
    next
      fix k assume "k < nat (i + 1)"
      then have "k < nat i \<or> k = nat i" using 2(1) by auto
      then show "int k \<le> dict_get (bc(p ! nat i \<mapsto> i)) (p ! k) (- 1)"
      proof
        assume k: "k < nat i"
        show ?thesis
        proof (cases "p ! k = p ! nat i")
          case True
          with k show ?thesis by (simp add: dict_get_def)
        next
          case False
          with 2(3) k show ?thesis by (simp add: dict_get_def)
        qed
      next
        assume "k = nat i"
        with 2(1) show ?thesis by (simp add: dict_get_def)
      qed
    qed
    with g show ?case by simp
  qed
  then show ?thesis by (auto simp: bad_character_table_def bc_ok_def max_def)
qed

lemma bm_compare_cond_eq:
  assumes "j < int (length p)" "int s + int (length p) \<le> int (length t)"
  shows "bm_compare_cond t p (int s) j = Inr (0 \<le> j \<and> p ! nat j = t ! (s + nat j))"
proof (cases "0 \<le> j")
  case True
  then have "py_get p j = Inr (p ! nat j)" using assms by (intro py_get_in) auto
  moreover have "py_get t (int s + j) = Inr (t ! nat (int s + j))"
    using True assms by (intro py_get_in) auto
  moreover have "nat (int s + j) = s + nat j" using True by (simp add: nat_add_distrib)
  ultimately show ?thesis using True by (simp add: bm_compare_cond_def)
next
  case False
  then show ?thesis by (simp add: bm_compare_cond_def)
qed

lemma bm_compare_loop:
  assumes "p \<noteq> []" "int s + int (length p) \<le> int (length t)"
  shows "\<exists>j. while_loop (bm_compare_cond t p (int s)) (\<lambda>j. Some (Inr (j - 1))) (int (length p) - 1) = Some (Inr j)
          \<and> cmp_ok t p s j \<and> (0 \<le> j \<longrightarrow> p ! nat j \<noteq> t ! (s + nat j))"
proof -
  let ?f = "\<lambda>j :: int. nat (j + 1)"
  have "\<exists>j. while_loop (bm_compare_cond t p (int s)) (\<lambda>j. Some (Inr (j - 1))) (int (length p) - 1) = Some (Inr j)
          \<and> cmp_ok t p s j \<and> bm_compare_cond t p (int s) j = Inr False"
  proof (rule while_loop_rule[where I = "cmp_ok t p s" and f = ?f], goal_cases)
    case 1
    show ?case using assms(1) by (auto simp: cmp_ok_def)
  next
    case (2 j)
    then have "j < int (length p)" by (simp add: cmp_ok_def)
    from bm_compare_cond_eq[OF this assms(2)] show ?case by blast
  next
    case (3 j)
    then have jm: "j < int (length p)" by (simp add: cmp_ok_def)
    from bm_compare_cond_eq[OF this assms(2)] 3(2)
    have j0: "0 \<le> j" and eq: "p ! nat j = t ! (s + nat j)" by auto
    have "cmp_ok t p s (j - 1)"
      unfolding cmp_ok_def
    proof (intro conjI allI impI)
      fix k assume k: "j - 1 < int k \<and> k < length p"
      show "p ! k = t ! (s + k)"
      proof (cases "int k = j")
        case True
        then have "nat j = k" by simp
        with eq show ?thesis by simp
      next
        case False
        with k have "j < int k" by simp
        with 3(1) k show ?thesis by (simp add: cmp_ok_def)
      qed
    qed (use j0 jm in auto)
    with j0 show ?case by auto
  qed
  then obtain j where r: "while_loop (bm_compare_cond t p (int s)) (\<lambda>j. Some (Inr (j - 1))) (int (length p) - 1) = Some (Inr j)"
    "cmp_ok t p s j" "bm_compare_cond t p (int s) j = Inr False"
    by blast
  from r(2) have "j < int (length p)" by (simp add: cmp_ok_def)
  from bm_compare_cond_eq[OF this assms(2)] r(3)
  have "0 \<le> j \<longrightarrow> p ! nat j \<noteq> t ! (s + nat j)" by simp
  with r(1,2) show ?thesis by blast
qed

lemma occurs_can_shift:
  assumes c: "cmp_ok t p s j" and ne: "0 \<le> j \<longrightarrow> p ! nat j \<noteq> t ! (s + nat j)"
    and oc: "occurs t p (s + e)" and e: "1 \<le> e"
  shows "can_shift p (nat j) e"
  unfolding can_shift_def
proof (intro conjI allI impI)
  fix k assume k: "nat j < k + e \<and> k + e < length p"
  then have "j < int (k + e)" by linarith
  with c k have "p ! (k + e) = t ! (s + (k + e))" unfolding cmp_ok_def by blast
  moreover have "t ! (s + e + k) = p ! k" using oc k by (intro occurs_nth) auto
  ultimately show "p ! k = p ! (k + e)" by (simp add: add.assoc add.commute[of e k])
next
  assume le: "e \<le> nat j"
  then have j0: "0 \<le> j" using e by linarith
  from c have "j < int (length p)" by (simp add: cmp_ok_def)
  then have "nat j < length p" using j0 by linarith
  then have "t ! (s + e + (nat j - e)) = p ! (nat j - e)" using oc by (intro occurs_nth) auto
  moreover have "s + e + (nat j - e) = s + nat j" using le by simp
  ultimately show "p ! (nat j - e) \<noteq> p ! nat j" using ne j0 by auto
qed

section \<open>\<open>boyer_moore_search\<close> returns all occurrences\<close>

lemma bm_advance_step:
  assumes gs: "gs_ok p gs" and bc: "bc_ok p bc" and ne0: "p \<noteq> []"
    and inv: "bm_inv t p (sa, matches)" and le: "sa \<le> int (length t) - int (length p)"
    and c: "cmp_ok t p (nat sa) j" and ne: "0 \<le> j \<longrightarrow> p ! nat j \<noteq> t ! (nat sa + nat j)"
  shows "\<exists>sa' ms'. bm_advance t bc gs (int (length t)) (int (length p)) sa j matches = Inr (sa', ms')
           \<and> bm_inv t p (sa', ms') \<and> sa < sa'"
proof -
  let ?n = "int (length t)" and ?m = "int (length p)"
  define s where "s = nat sa"
  from inv have sa0: "0 \<le> sa" and ms: "matches = all_occ t p s" by (auto simp: bm_inv_def s_def)
  have sa: "sa = int s" using sa0 by (simp add: s_def)
  from gs have glen: "length gs = length p"
    and gok: "\<And>jj. jj < length p \<Longrightarrow> 1 \<le> gs ! jj \<and> (\<forall>d. 1 \<le> d \<and> int d < gs ! jj \<longrightarrow> \<not> can_shift p jj d)"
    by (auto simp: gs_ok_def)
  from c have j1: "- 1 \<le> j" and jm: "j < ?m"
    and mt: "\<And>k. j < int k \<Longrightarrow> k < length p \<Longrightarrow> p ! k = t ! (s + k)"
    by (auto simp: cmp_ok_def s_def)
  have m0: "0 < length p" using ne0 by simp
  have fit: "s + length p \<le> length t" using le sa by linarith
  have nocc: "\<not> occurs t p (s + e)" if "1 \<le> e" "int e < gs ! nat j" for e
  proof
    assume "occurs t p (s + e)"
    from occurs_can_shift[OF c[unfolded s_def[symmetric]] ne[unfolded s_def[symmetric]] this that(1)]
    have "can_shift p (nat j) e" .
    moreover have "nat j < length p" using jm m0 by linarith
    ultimately show False using gok that by blast
  qed
  show ?thesis
  proof (cases "j < 0")
    case True
    then have nj: "nat j = 0" by simp
    have "pmatch t s p (length p)"
      unfolding pmatch_def using fit mt True by auto
    then have oc: "occurs t p s" by (simp add: occurs_iff)
    define d where "d = (if sa + ?m < ?n then gs ! 0 else 1)"
    have g0: "py_get gs 0 = Inr (gs ! 0)" using glen m0 by (simp add: py_get_def)
    have d1: "1 \<le> d" using gok[OF m0] by (simp add: d_def)
    have dle: "d \<le> gs ! 0" using gok[OF m0] by (simp add: d_def)
    have "all_occ t p (nat (sa + d)) = all_occ t p s @ [int s]"
    proof (rule all_occ_extend_one)
      show "s < nat (sa + d)" using d1 sa by linarith
      show "occurs t p s" by (rule oc)
    next
      fix s' assume s': "s < s'" "s' < nat (sa + d)"
      define e where "e = s' - s"
      have "1 \<le> e" "int e < gs ! nat j" "s' = s + e"
        using s' dle sa nj by (auto simp: e_def)
      with nocc[of e] show "\<not> occurs t p s'" by simp
    qed
    then have "bm_inv t p (sa + d, matches @ [sa])"
      using sa0 d1 ms sa by (simp add: bm_inv_def)
    moreover have "bm_advance t bc gs ?n ?m sa j matches = Inr (sa + d, matches @ [sa])"
      using True g0 by (simp add: bm_advance_def d_def)
    ultimately show ?thesis using d1 by auto
  next
    case False
    then have j0: "0 \<le> j" by simp
    define nj where "nj = nat j"
    have jj: "j = int nj" and njm: "nj < length p" using j0 jm by (auto simp: nj_def)
    define ch where "ch = t ! (s + nj)"
    define d where "d = max (j - dict_get bc ch (- 1)) (gs ! nj)"
    have g1: "py_get t (sa + j) = Inr ch"
    proof -
      have "py_get t (int (s + nj)) = Inr (t ! (s + nj))" using fit njm by (intro py_get_nat) simp
      then show ?thesis by (simp add: sa jj ch_def)
    qed
    have g2: "py_get gs j = Inr (gs ! nj)" unfolding jj using glen njm by (simp add: py_get_nat)
    have d1: "1 \<le> d" using gok[OF njm] by (auto simp: d_def)
    have mis: "p ! nj \<noteq> ch" using ne j0 by (simp add: nj_def ch_def s_def)
    have "all_occ t p (nat (sa + d)) = all_occ t p s"
    proof (rule all_occ_extend_none)
      show "s \<le> nat (sa + d)" using d1 sa by linarith
    next
      fix s' assume s': "s \<le> s'" "s' < nat (sa + d)"
      define e where "e = s' - s"
      have es: "s' = s + e" and ed: "int e < d" using s' sa by (auto simp: e_def)
      show "\<not> occurs t p s'"
      proof
        assume oc: "occurs t p s'"
        show False
        proof (cases "e = 0")
          case True
          with oc es have "t ! (s + nj) = p ! nj" using njm by (intro occurs_nth) auto
          with mis show False by (simp add: ch_def)
        next
          case False
          then have e1: "1 \<le> e" by simp
          show False
          proof (cases "int e < gs ! nj")
            case True
            with nocc[OF e1] oc es show False by (simp add: nj_def)
          next
            case False
            with ed have eb: "int e < j - dict_get bc ch (- 1)" by (simp add: d_def)
            show False
            proof (cases "e \<le> nj")
              case True
              have "t ! (s + e + (nj - e)) = p ! (nj - e)"
                using oc es njm by (intro occurs_nth) auto
              moreover have "s + e + (nj - e) = s + nj" using True by simp
              ultimately have "p ! (nj - e) = ch" by (simp add: ch_def)
              moreover have "int (nj - e) \<le> dict_get bc (p ! (nj - e)) (- 1)"
                using bc njm unfolding bc_ok_def by (metis less_imp_diff_less)
              ultimately show False using eb True by (simp add: jj)
            next
              case False
              moreover have "- 1 \<le> dict_get bc ch (- 1)" using bc by (simp add: bc_ok_def)
              ultimately show False using eb by (simp add: jj)
            qed
          qed
        qed
      qed
    qed
    then have "bm_inv t p (sa + d, matches)"
      using sa0 d1 ms by (simp add: bm_inv_def)
    moreover have "bm_advance t bc gs ?n ?m sa j matches = Inr (sa + d, matches)"
      using False g1 g2 by (simp add: bm_advance_def d_def Let_def)
    ultimately show ?thesis using d1 by auto
  qed
qed

lemma bm_inv_final:
  assumes "p \<noteq> []" "bm_inv t p (sa, matches)" "\<not> sa \<le> int (length t) - int (length p)"
  shows "matches = all_occ t p (Suc (length t))"
proof -
  from assms(2) have sa0: "0 \<le> sa" and ms: "matches = all_occ t p (nat sa)" by (auto simp: bm_inv_def)
  have no: "\<not> occurs t p s" if "nat sa \<le> s" for s
    using that assms(3) sa0 by (auto simp: occurs_def)
  show ?thesis
  proof (cases "nat sa \<le> Suc (length t)")
    case True
    then have "all_occ t p (Suc (length t)) = all_occ t p (nat sa)"
      using no by (intro all_occ_extend_none) auto
    with ms show ?thesis by simp
  next
    case False
    then have "all_occ t p (nat sa) = all_occ t p (Suc (length t))"
      by (intro all_occ_extend_none) (auto simp: occurs_def)
    with ms show ?thesis by simp
  qed
qed

lemma boyer_moore_search_correct:
  assumes "p \<noteq> []" "length p \<le> length t"
  shows "boyer_moore_search t p = Some (Inr (all_occ t p (Suc (length t))))"
proof -
  let ?n = "int (length t)" and ?m = "int (length p)"
  from bad_character_table_ok obtain bc where bc: "bad_character_table p = Inr bc" "bc_ok p bc" by blast
  from good_suffix_table_ok[OF assms(1)] obtain gs where gs: "good_suffix_table p = Some (Inr gs)" "gs_ok p gs"
    by blast
  let ?cond = "\<lambda>(shift_amount :: int, matches :: int list). (Inr (shift_amount \<le> ?n - ?m) :: py_error + bool)"
  let ?f = "\<lambda>(shift_amount :: int, matches :: int list). nat (?n - ?m + 1 - shift_amount)"
  have "\<exists>s'. while_loop ?cond (bm_body t p bc gs) (0, []) = Some (Inr s') \<and> bm_inv t p s' \<and> ?cond s' = Inr False"
  proof (rule while_loop_rule[where I = "bm_inv t p" and f = ?f], goal_cases)
    case 1
    show ?case by (simp add: bm_inv_def all_occ_def)
  next
    case (2 s)
    then show ?case by (cases s) auto
  next
    case (3 s)
    obtain sa ms where s: "s = (sa, ms)" by (cases s)
    with 3 have inv: "bm_inv t p (sa, ms)" and le: "sa \<le> ?n - ?m" by auto
    from inv have sa0: "0 \<le> sa" by (simp add: bm_inv_def)
    then have sa: "sa = int (nat sa)" by simp
    have fit: "int (nat sa) + ?m \<le> ?n" using le sa0 by simp
    from bm_compare_loop[OF assms(1) fit] obtain j where
      j: "while_loop (bm_compare_cond t p (int (nat sa))) (\<lambda>j. Some (Inr (j - 1))) (?m - 1) = Some (Inr j)"
        "cmp_ok t p (nat sa) j" "0 \<le> j \<longrightarrow> p ! nat j \<noteq> t ! (nat sa + nat j)"
      by blast
    from bm_advance_step[OF gs(2) bc(2) assms(1) inv le j(2,3)] obtain sa' ms' where
      a: "bm_advance t bc gs ?n ?m sa j ms = Inr (sa', ms')" "bm_inv t p (sa', ms')" "sa < sa'"
      by blast
    have "bm_body t p bc gs (sa, ms) = Some (Inr (sa', ms'))"
      using j(1) a(1) sa0 by (simp add: bm_body_def Let_def)
    with a le s show ?case by auto
  qed
  then obtain sa ms where r: "while_loop ?cond (bm_body t p bc gs) (0, []) = Some (Inr (sa, ms))"
    "bm_inv t p (sa, ms)" "\<not> sa \<le> ?n - ?m"
    by auto
  from bm_inv_final[OF assms(1) r(2,3)] r(1) bc(1) gs(1) assms show ?thesis
    by (simp add: boyer_moore_search_def Let_def)
qed

section \<open>\<open>count_comparisons_boyer_moore\<close>\<close>

lemma bm_count_compare_loop:
  assumes ne0: "p \<noteq> []" and fit: "int s + int (length p) \<le> int (length t)"
  shows "\<exists>j c stop. while_loop (\<lambda>(j, comparisons, stop). Inr (\<not> stop \<and> j \<ge> 0))
             (\<lambda>st. Some (bm_count_compare_body t p (int s) st)) (int (length p) - 1, c0, False)
             = Some (Inr (j, c, stop))
          \<and> cmp_ok t p s j \<and> (0 \<le> j \<longrightarrow> p ! nat j \<noteq> t ! (s + nat j)) \<and> c0 \<le> c"
proof -
  let ?m = "int (length p)"
  let ?cond = "\<lambda>(j :: int, comparisons :: int, stop :: bool). (Inr (\<not> stop \<and> j \<ge> 0) :: py_error + bool)"
  let ?I = "\<lambda>(j :: int, c :: int, stop :: bool).
      cmp_ok t p s j \<and> c0 \<le> c \<and> (stop \<longrightarrow> 0 \<le> j \<and> p ! nat j \<noteq> t ! (s + nat j))"
  let ?f = "\<lambda>(j :: int, c :: int, stop :: bool). if stop then 0 else nat (j + 2)"
  have "\<exists>st'. while_loop ?cond (\<lambda>st. Some (bm_count_compare_body t p (int s) st)) (?m - 1, c0, False)
            = Some (Inr st') \<and> ?I st' \<and> ?cond st' = Inr False"
  proof (rule while_loop_rule[where I = ?I and f = ?f], goal_cases)
    case 1
    show ?case using ne0 by (auto simp: cmp_ok_def)
  next
    case (2 st)
    then show ?case by (cases st) auto
  next
    case (3 st)
    obtain j c stop where st: "st = (j, c, stop)" by (cases st)
    with 3 have c: "cmp_ok t p s j" and cc: "c0 \<le> c" and ns: "\<not> stop" and j0: "0 \<le> j" by auto
    from c have jm: "j < ?m" and mt: "\<And>k. j < int k \<Longrightarrow> k < length p \<Longrightarrow> p ! k = t ! (s + k)"
      by (auto simp: cmp_ok_def)
    have g1: "py_get p j = Inr (p ! nat j)" using j0 jm by (intro py_get_in) auto
    have "py_get t (int s + j) = Inr (t ! nat (int s + j))" using j0 jm fit by (intro py_get_in) auto
    moreover have "nat (int s + j) = s + nat j" using j0 by (simp add: nat_add_distrib)
    ultimately have g2: "py_get t (int s + j) = Inr (t ! (s + nat j))" by simp
    show ?case
    proof (cases "p ! nat j = t ! (s + nat j)")
      case True
      have "cmp_ok t p s (j - 1)"
        unfolding cmp_ok_def
      proof (intro conjI allI impI)
        fix k assume k: "j - 1 < int k \<and> k < length p"
        show "p ! k = t ! (s + k)"
        proof (cases "int k = j")
          case e: True
          then have "nat j = k" by simp
          with True show ?thesis by simp
        next
          case False
          with k have "j < int k" by simp
          with mt k show ?thesis by simp
        qed
      qed (use j0 jm in auto)
      moreover have "bm_count_compare_body t p (int s) (j, c, stop) = Inr (j - 1, c + 1, False)"
        using True g1 g2 by (simp add: bm_count_compare_body_def Let_def)
      ultimately show ?thesis using st cc ns j0 by auto
    next
      case False
      have "bm_count_compare_body t p (int s) (j, c, stop) = Inr (j, c + 1, True)"
        using False g1 g2 by (simp add: bm_count_compare_body_def Let_def)
      with False c cc ns j0 st show ?thesis by auto
    qed
  qed
  then obtain j c stop where r: "while_loop ?cond (\<lambda>st. Some (bm_count_compare_body t p (int s) st)) (?m - 1, c0, False)
            = Some (Inr (j, c, stop))" "?I (j, c, stop)" "?cond (j, c, stop) = Inr False"
    by auto
  from r(2,3) have "cmp_ok t p s j" "c0 \<le> c" "0 \<le> j \<longrightarrow> p ! nat j \<noteq> t ! (s + nat j)" by auto
  with r(1) show ?thesis by blast
qed

lemma count_comparisons_boyer_moore_correct:
  assumes "p \<noteq> []" "length p \<le> length t"
  shows "\<exists>c. count_comparisons_boyer_moore t p = Some (Inr (all_occ t p (Suc (length t)), c)) \<and> 0 \<le> c"
proof -
  let ?n = "int (length t)" and ?m = "int (length p)"
  from bad_character_table_ok obtain bc where bc: "bad_character_table p = Inr bc" "bc_ok p bc" by blast
  from good_suffix_table_ok[OF assms(1)] obtain gs where gs: "good_suffix_table p = Some (Inr gs)" "gs_ok p gs"
    by blast
  let ?cond = "\<lambda>(shift_amount :: int, matches :: int list, comparisons :: int).
      (Inr (shift_amount \<le> ?n - ?m) :: py_error + bool)"
  let ?f = "\<lambda>(shift_amount :: int, matches :: int list, comparisons :: int). nat (?n - ?m + 1 - shift_amount)"
  let ?I = "\<lambda>(shift_amount :: int, matches :: int list, comparisons :: int).
      bm_inv t p (shift_amount, matches) \<and> 0 \<le> comparisons"
  have "\<exists>s'. while_loop ?cond (bm_count_body t p bc gs) (0, [], 0) = Some (Inr s') \<and> ?I s' \<and> ?cond s' = Inr False"
  proof (rule while_loop_rule[where I = ?I and f = ?f], goal_cases)
    case 1
    show ?case by (simp add: bm_inv_def all_occ_def)
  next
    case (2 s)
    then show ?case by (cases s) auto
  next
    case (3 s)
    obtain sa ms c where s: "s = (sa, ms, c)" by (cases s)
    with 3 have inv: "bm_inv t p (sa, ms)" and c0: "0 \<le> c" and le: "sa \<le> ?n - ?m" by auto
    from inv have sa0: "0 \<le> sa" by (simp add: bm_inv_def)
    have fit: "int (nat sa) + ?m \<le> ?n" using le sa0 by simp
    from bm_count_compare_loop[OF assms(1) fit, of c] obtain j c' stop where
      j: "while_loop (\<lambda>(j, comparisons, stop). Inr (\<not> stop \<and> j \<ge> 0))
             (\<lambda>st. Some (bm_count_compare_body t p (int (nat sa)) st)) (?m - 1, c, False)
             = Some (Inr (j, c', stop))"
        "cmp_ok t p (nat sa) j" "0 \<le> j \<longrightarrow> p ! nat j \<noteq> t ! (nat sa + nat j)" "c \<le> c'"
      by blast
    from bm_advance_step[OF gs(2) bc(2) assms(1) inv le j(2,3)] obtain sa' ms' where
      a: "bm_advance t bc gs ?n ?m sa j ms = Inr (sa', ms')" "bm_inv t p (sa', ms')" "sa < sa'"
      by blast
    have "bm_count_body t p bc gs (sa, ms, c) = Some (Inr (sa', ms', c'))"
      using j(1) a(1) sa0 by (simp add: bm_count_body_def Let_def)
    with a le s c0 j(4) show ?case by auto
  qed
  then obtain sa ms c where r: "while_loop ?cond (bm_count_body t p bc gs) (0, [], 0) = Some (Inr (sa, ms, c))"
    "bm_inv t p (sa, ms)" "0 \<le> c" "\<not> sa \<le> ?n - ?m"
    by auto
  from bm_inv_final[OF assms(1) r(2,4)] r(1,3) bc(1) gs(1) assms show ?thesis
    by (simp add: count_comparisons_boyer_moore_def Let_def)
qed

section \<open>One pass of the scan loop\<close>

text \<open>
  The index at which the right-to-left comparison stops is determined by the window, so the
  plain and the counting comparison stop at the same index; the advance that follows is
  computed from that index and is positive because every good-suffix entry is.
\<close>

lemma cmp_ok_unique:
  assumes "cmp_ok t p s j" "0 \<le> j \<longrightarrow> p ! nat j \<noteq> t ! (s + nat j)"
    and "cmp_ok t p s j'" "0 \<le> j' \<longrightarrow> p ! nat j' \<noteq> t ! (s + nat j')"
  shows "j = j'"
proof -
  have one: "\<not> a < b" if "cmp_ok t p s a" "cmp_ok t p s b" "0 \<le> b \<longrightarrow> p ! nat b \<noteq> t ! (s + nat b)" for a b
  proof
    assume lt: "a < b"
    from that(1) have "- 1 \<le> a" by (simp add: cmp_ok_def)
    with lt have b0: "0 \<le> b" by simp
    from that(2) have "b < int (length p)" by (simp add: cmp_ok_def)
    with b0 have "nat b < length p" "a < int (nat b)" using lt by auto
    with that(1) have "p ! nat b = t ! (s + nat b)" by (simp add: cmp_ok_def)
    with that(3) b0 show False by simp
  qed
  from one[OF assms(1,3,4)] one[OF assms(3,1,2)] show ?thesis by simp
qed

lemma bm_advance_shift:
  assumes gs: "gs_ok p gs" and ne0: "p \<noteq> []" and sa0: "0 \<le> sa"
    and le: "sa \<le> int (length t) - int (length p)" and c: "cmp_ok t p (nat sa) j"
  shows "\<exists>d. bm_advance t bc gs (int (length t)) (int (length p)) sa j ms
            = Inr (sa + d, if j < 0 then ms @ [sa] else ms)
        \<and> d = (if j < 0 then (if sa + int (length p) < int (length t) then gs ! 0 else 1)
                else max (j - dict_get bc (t ! nat (sa + j)) (- 1)) (gs ! nat j))
        \<and> 1 \<le> d"
proof -
  let ?n = "int (length t)" and ?m = "int (length p)"
  from gs have glen: "length gs = length p"
    and gpos: "\<And>jj. jj < length p \<Longrightarrow> 1 \<le> gs ! jj"
    by (auto simp: gs_ok_def)
  from c have j1: "- 1 \<le> j" and jm: "j < ?m" by (auto simp: cmp_ok_def)
  have m0: "0 < length p" using ne0 by simp
  show ?thesis
  proof (cases "j < 0")
    case True
    have g0: "py_get gs 0 = Inr (gs ! 0)" using glen m0 by (simp add: py_get_def)
    have "1 \<le> (if sa + ?m < ?n then gs ! 0 else 1)" using gpos[OF m0] by simp
    moreover have "bm_advance t bc gs ?n ?m sa j ms
        = Inr (sa + (if sa + ?m < ?n then gs ! 0 else 1), ms @ [sa])"
      using True g0 by (simp add: bm_advance_def)
    ultimately show ?thesis using True by simp
  next
    case False
    then have j0: "0 \<le> j" by simp
    have njm: "nat j < length p" using j0 jm by simp
    have g1: "py_get t (sa + j) = Inr (t ! nat (sa + j))"
      using sa0 j0 jm le by (intro py_get_in) auto
    have g2: "py_get gs j = Inr (gs ! nat j)"
      using j0 jm glen by (intro py_get_in) auto
    have "1 \<le> max (j - dict_get bc (t ! nat (sa + j)) (- 1)) (gs ! nat j)"
      using gpos[OF njm] by simp
    moreover have "bm_advance t bc gs ?n ?m sa j ms
        = Inr (sa + max (j - dict_get bc (t ! nat (sa + j)) (- 1)) (gs ! nat j), ms)"
      using False g1 g2 by (simp add: bm_advance_def Let_def)
    ultimately show ?thesis using False by simp
  qed
qed

text \<open>
  The first pass of both scans on the text \<open>ATCGATCG\<close> with the pattern \<open>GATC\<close>: the
  comparison stops at \<open>j = 3\<close> (\<open>C\<close> against \<open>G\<close>) after one comparison, the bad-character
  shift is \<open>3 - 0\<close>, the good-suffix shift is 1, and the window moves from 0 to 3.
\<close>

lemma bm_body_example:
  "bindR (Some (bad_character_table ''GATC'')) (\<lambda>bad_char.
   bindR (good_suffix_table ''GATC'') (\<lambda>good_suffix.
     bm_body ''ATCGATCG'' ''GATC'' bad_char good_suffix (0, []))) = Some (Inr (3, []))"
  by code_simp

lemma bm_count_body_example:
  "bindR (Some (bad_character_table ''GATC'')) (\<lambda>bad_char.
   bindR (good_suffix_table ''GATC'') (\<lambda>good_suffix.
     bm_count_body ''ATCGATCG'' ''GATC'' bad_char good_suffix (0, [], 0))) = Some (Inr (3, [], 1))"
  by code_simp

section \<open>Claims about the exact matchers\<close>

text \<open>
  C1. For a non-empty pattern that is not longer than the text, \<open>boyer_moore_search\<close> and
  \<open>kmp_search\<close> return (without raising) the list that \<open>native_search\<close> returns, and
  that list is the strictly ascending list of all offsets at which the pattern stands
  in the text, overlapping occurrences included.
\<close>

theorem exact_matchers_agree_with_reference:
  assumes "p \<noteq> []" "length p \<le> length t"
  shows "boyer_moore_search t p = Some (Inr (native_search t p))
   \<and> kmp_search t p = Some (Inr (native_search t p))
   \<and> sorted_wrt (<) (native_search t p)
   \<and> set (native_search t p) = int ` {s. occurs t p s}"
  using boyer_moore_search_correct[OF assms] kmp_search_correct[OF assms]
  by (simp add: native_search_eq sorted_all_occ set_all_occ)

theorem exact_matchers_agree_with_reference_witness:
  "''GATC'' \<noteq> [] \<and> length ''GATC'' \<le> length ''ATCGATCGATCG''
   \<and> boyer_moore_search ''ATCGATCGATCG'' ''GATC'' = Some (Inr (native_search ''ATCGATCGATCG'' ''GATC''))
   \<and> kmp_search ''ATCGATCGATCG'' ''GATC'' = Some (Inr (native_search ''ATCGATCGATCG'' ''GATC''))
   \<and> sorted_wrt (<) (native_search ''ATCGATCGATCG'' ''GATC'')
   \<and> set (native_search ''ATCGATCGATCG'' ''GATC'') = int ` {s. occurs ''ATCGATCGATCG'' ''GATC'' s}"
  using exact_matchers_agree_with_reference [of "''GATC''" "''ATCGATCGATCG''"] by simp

text \<open>
  C4. For a non-empty pattern and every window position \<open>shift_amount\<close> of the scan
  (\<open>0 \<le> shift_amount \<le> n - m\<close>), one pass of the scan loop of \<open>boyer_moore_search\<close> and one pass
  of the scan loop of \<open>count_comparisons_boyer_moore\<close>, run with the tables that
  \<open>bad_character_table\<close> and \<open>good_suffix_table\<close> return, both end without raising and leave
  the same new \<open>shift_amount\<close>.  With \<open>j\<close> the index at which the right-to-left comparison
  stops, the advance is \<open>max(j - bad_char.get(text[shift_amount + j], -1), good_suffix[j])\<close>
  after a mismatch (\<open>j \<ge> 0\<close>) and \<open>good_suffix[0]\<close> or 1 after a match, and it is at least 1:
  the shift strictly increases in every pass, and both searches return.
\<close>

theorem boyer_moore_shift_positive:
  assumes "p \<noteq> []" "0 \<le> sa" "sa \<le> int (length t) - int (length p)"
  shows "\<exists>bc gs j sa' ms' c'.
       bad_character_table p = Inr bc \<and> good_suffix_table p = Some (Inr gs)
     \<and> while_loop (bm_compare_cond t p sa) (\<lambda>j. Some (Inr (j - 1))) (int (length p) - 1) = Some (Inr j)
     \<and> bm_body t p bc gs (sa, ms) = Some (Inr (sa', ms'))
     \<and> bm_count_body t p bc gs (sa, ms, c) = Some (Inr (sa', ms', c'))
     \<and> ms' = (if j < 0 then ms @ [sa] else ms)
     \<and> sa' - sa = (if j < 0 then (if sa + int (length p) < int (length t) then gs ! 0 else 1)
                    else max (j - dict_get bc (t ! nat (sa + j)) (- 1)) (gs ! nat j))
     \<and> 1 \<le> sa' - sa
     \<and> (\<exists>r. boyer_moore_search t p = Some (Inr r))
     \<and> (\<exists>r. count_comparisons_boyer_moore t p = Some (Inr r))"
proof -
  let ?n = "int (length t)" and ?m = "int (length p)"
  from bad_character_table_ok obtain bc where bc: "bad_character_table p = Inr bc" by blast
  from good_suffix_table_ok[OF assms(1)] obtain gs where
    gs: "good_suffix_table p = Some (Inr gs)" "gs_ok p gs" by blast
  have sa: "int (nat sa) = sa" using assms(2) by simp
  have fit: "int (nat sa) + ?m \<le> ?n" using assms(2,3) by simp
  have len: "length p \<le> length t" using assms(2,3) by linarith
  from bm_compare_loop[OF assms(1) fit] obtain j where
    j: "while_loop (bm_compare_cond t p sa) (\<lambda>j. Some (Inr (j - 1))) (?m - 1) = Some (Inr j)"
       "cmp_ok t p (nat sa) j" "0 \<le> j \<longrightarrow> p ! nat j \<noteq> t ! (nat sa + nat j)"
    unfolding sa by blast
  from bm_count_compare_loop[OF assms(1) fit, of c] obtain j' c' stop where
    j': "while_loop (\<lambda>(j, comparisons, stop). Inr (\<not> stop \<and> j \<ge> 0))
             (\<lambda>st. Some (bm_count_compare_body t p sa st)) (?m - 1, c, False)
             = Some (Inr (j', c', stop))"
        "cmp_ok t p (nat sa) j'" "0 \<le> j' \<longrightarrow> p ! nat j' \<noteq> t ! (nat sa + nat j')"
    unfolding sa by blast
  from cmp_ok_unique[OF j(2,3) j'(2,3)] have jj: "j' = j" by simp
  from bm_advance_shift[OF gs(2) assms(1,2,3) j(2), of bc ms] obtain d where
    d: "bm_advance t bc gs ?n ?m sa j ms = Inr (sa + d, if j < 0 then ms @ [sa] else ms)"
       "d = (if j < 0 then (if sa + ?m < ?n then gs ! 0 else 1)
             else max (j - dict_get bc (t ! nat (sa + j)) (- 1)) (gs ! nat j))"
       "1 \<le> d"
    by blast
  have b1: "bm_body t p bc gs (sa, ms) = Some (Inr (sa + d, if j < 0 then ms @ [sa] else ms))"
    using j(1) d(1) by (simp add: bm_body_def Let_def)
  have b2: "bm_count_body t p bc gs (sa, ms, c) = Some (Inr (sa + d, if j < 0 then ms @ [sa] else ms, c'))"
    using j'(1) d(1) jj by (simp add: bm_count_body_def Let_def)
  from count_comparisons_boyer_moore_correct[OF assms(1) len] obtain k where
    k: "count_comparisons_boyer_moore t p = Some (Inr (all_occ t p (Suc (length t)), k))" by blast
  show ?thesis
  proof (intro exI conjI)
    show "bad_character_table p = Inr bc" by (rule bc)
    show "good_suffix_table p = Some (Inr gs)" by (rule gs(1))
    show "while_loop (bm_compare_cond t p sa) (\<lambda>j. Some (Inr (j - 1))) (?m - 1) = Some (Inr j)"
      by (rule j(1))
    show "bm_body t p bc gs (sa, ms) = Some (Inr (sa + d, if j < 0 then ms @ [sa] else ms))"
      by (rule b1)
    show "bm_count_body t p bc gs (sa, ms, c) = Some (Inr (sa + d, if j < 0 then ms @ [sa] else ms, c'))"
      by (rule b2)
    show "(if j < 0 then ms @ [sa] else ms) = (if j < 0 then ms @ [sa] else ms)" by (rule refl)
    show "sa + d - sa = (if j < 0 then (if sa + ?m < ?n then gs ! 0 else 1)
             else max (j - dict_get bc (t ! nat (sa + j)) (- 1)) (gs ! nat j))"
      using d(2) by simp
    show "1 \<le> sa + d - sa" using d(3) by simp
    show "boyer_moore_search t p = Some (Inr (all_occ t p (Suc (length t))))"
      by (rule boyer_moore_search_correct[OF assms(1) len])
    show "count_comparisons_boyer_moore t p = Some (Inr (all_occ t p (Suc (length t)), k))" by (rule k)
  qed
qed

theorem boyer_moore_shift_positive_witness:
  "''GATC'' \<noteq> [] \<and> (0 :: int) \<le> 0 \<and> 0 \<le> int (length ''ATCGATCG'') - int (length ''GATC'')
   \<and> (\<exists>bc gs j sa' ms' c'.
       bad_character_table ''GATC'' = Inr bc \<and> good_suffix_table ''GATC'' = Some (Inr gs)
     \<and> while_loop (bm_compare_cond ''ATCGATCG'' ''GATC'' 0) (\<lambda>j. Some (Inr (j - 1))) (int (length ''GATC'') - 1) = Some (Inr j)
     \<and> bm_body ''ATCGATCG'' ''GATC'' bc gs (0, []) = Some (Inr (sa', ms'))
     \<and> bm_count_body ''ATCGATCG'' ''GATC'' bc gs (0, [], 0) = Some (Inr (sa', ms', c'))
     \<and> ms' = (if j < 0 then [] @ [0] else [])
     \<and> sa' - 0 = (if j < 0 then (if 0 + int (length ''GATC'') < int (length ''ATCGATCG'') then gs ! 0 else 1)
                    else max (j - dict_get bc (''ATCGATCG'' ! nat (0 + j)) (- 1)) (gs ! nat j))
     \<and> 1 \<le> sa' - 0
     \<and> (\<exists>r. boyer_moore_search ''ATCGATCG'' ''GATC'' = Some (Inr r))
     \<and> (\<exists>r. count_comparisons_boyer_moore ''ATCGATCG'' ''GATC'' = Some (Inr r)))"
  using boyer_moore_shift_positive [of "''GATC''" 0 "''ATCGATCG''" "[]" 0] by simp

text \<open>
  C8. Each instrumented variant returns the match list of its plain counterpart, together
  with a comparison count that is not negative: \<open>count_comparisons_boyer_moore\<close> against
  \<open>boyer_moore_search\<close>, \<open>count_comparisons_kmp\<close> against \<open>kmp_search\<close>, and
  \<open>count_comparisons_levenshtein\<close> against \<open>levenshtein_search_optimized\<close>, for every text,
  pattern and threshold; all six calls return.
\<close>

theorem instrumented_variants_agree:
  "\<exists>bm c1 kmp c2 lev c3.
     boyer_moore_search t p = Some (Inr bm) \<and> count_comparisons_boyer_moore t p = Some (Inr (bm, c1)) \<and> 0 \<le> c1
   \<and> kmp_search t p = Some (Inr kmp) \<and> count_comparisons_kmp t p = Some (Inr (kmp, c2)) \<and> 0 \<le> c2
   \<and> levenshtein_search_optimized t p d = Inr lev \<and> count_comparisons_levenshtein t p d = Inr (lev, c3)
   \<and> 0 \<le> c3"
proof -
  have bm: "\<exists>bm c1. boyer_moore_search t p = Some (Inr bm)
      \<and> count_comparisons_boyer_moore t p = Some (Inr (bm, c1)) \<and> 0 \<le> c1"
  proof (cases "p = [] \<or> length t < length p")
    case True
    then show ?thesis
      by (auto simp: boyer_moore_search_def count_comparisons_boyer_moore_def Let_def)
  next
    case False
    then have h: "p \<noteq> []" "length p \<le> length t" by auto
    from boyer_moore_search_correct[OF h] count_comparisons_boyer_moore_correct[OF h]
    show ?thesis by blast
  qed
  have kmp: "\<exists>kmp c2. kmp_search t p = Some (Inr kmp)
      \<and> count_comparisons_kmp t p = Some (Inr (kmp, c2)) \<and> 0 \<le> c2"
  proof (cases "p = [] \<or> length t < length p")
    case True
    then show ?thesis
      by (auto simp: kmp_search_def count_comparisons_kmp_def)
  next
    case False
    then have h: "p \<noteq> []" "length p \<le> length t" by auto
    from kmp_search_correct[OF h] count_comparisons_kmp_correct[OF h]
    show ?thesis by blast
  qed
  have "0 \<le> (if p = [] \<or> length t < length p then 0
          else int (length p) * int (length p) * (int (length t) - int (length p) + 1))"
    by simp
  then have lev: "\<exists>lev c3. levenshtein_search_optimized t p d = Inr lev
      \<and> count_comparisons_levenshtein t p d = Inr (lev, c3) \<and> 0 \<le> c3"
    unfolding count_comparisons_levenshtein_eq levenshtein_search_optimized_eq by simp
  from bm kmp lev show ?thesis by blast
qed

end
